theory Spec2Isabelle
  imports Main "HOL-Library.AList"
begin

section \<open>Values and exceptions\<close>

text \<open>
  Task inputs and outputs are untyped Python values. The orchestrator only moves them
  around and tests their truth value (\<^verbatim>\<open>if p_output:\<close>), so the model keeps the shapes
  the demos use and Python's truth value for each of them.
\<close>

datatype pyval =
    PyNone
  | PyBool bool
  | PyInt int
  | PyStr string
  | PyList "pyval list"

fun truthy :: "pyval \<Rightarrow> bool" where
  "truthy PyNone = False"
| "truthy (PyBool b) = b"
| "truthy (PyInt i) = (i \<noteq> 0)"
| "truthy (PyStr s) = (s \<noteq> [])"
| "truthy (PyList xs) = (xs \<noteq> [])"

text \<open>
  Exceptions are values. \<open>KeyError\<close> is what a subscript of a dict raises on a missing key,
  \<open>AttributeError\<close> what \<^verbatim>\<open>.task_id\<close> raises on a string; \<open>UserError\<close> stands for any
  other exception class a task body may raise. All of them are subclasses of Python's
  \<^verbatim>\<open>Exception\<close>.
\<close>

datatype exn =
    ValueError string
  | RuntimeError string
  | KeyError
  | AttributeError
  | UserError string

section \<open>Constraint model (constraints.py)\<close>

record TaskConstraints =
  max_spawn_count :: "int option"
  valid_next_nodes_policy :: string
  valid_next_nodes :: "string list"
  valid_previous_nodes_policy :: string
  valid_previous_nodes :: "string list"
  valid_incoming_edges_policy :: string
  valid_incoming_edges :: "(string \<times> string) list"
  valid_outgoing_edges_policy :: string
  valid_outgoing_edges :: "(string \<times> string) list"

definition valid_policies :: "string list" where
  "valid_policies = [''allow_all'', ''allow_none'', ''custom'']"

text \<open>
  \<^verbatim>\<open>if self.max_spawn_count and self.max_spawn_count < 0\<close>: the first conjunct is
  Python's truth value of an optional integer (absent and 0 are false).
\<close>

definition validate_max_spawn_count :: "TaskConstraints \<Rightarrow> exn + unit" where
  "validate_max_spawn_count c =
     (case max_spawn_count c of
        None \<Rightarrow> Inr ()
      | Some k \<Rightarrow> if k \<noteq> 0 \<and> k < 0 then Inl (ValueError ''max_spawn_count must be >= 0'')
                  else Inr ())"

definition validate_policy_values :: "TaskConstraints \<Rightarrow> exn + unit" where
  "validate_policy_values c =
     (if valid_next_nodes_policy c \<notin> set valid_policies
        then Inl (ValueError ''valid_next_nodes_policy must be one of ['allow_all', 'allow_none', 'custom']'')
      else if valid_previous_nodes_policy c \<notin> set valid_policies
        then Inl (ValueError ''valid_previous_nodes_policy must be one of ['allow_all', 'allow_none', 'custom']'')
      else if valid_incoming_edges_policy c \<notin> set valid_policies
        then Inl (ValueError ''valid_incoming_edges_policy must be one of ['allow_all', 'allow_none', 'custom']'')
      else if valid_outgoing_edges_policy c \<notin> set valid_policies
        then Inl (ValueError ''valid_outgoing_edges_policy must be one of ['allow_all', 'allow_none', 'custom']'')
      else Inr ())"

definition validate_policy_nodes :: "TaskConstraints \<Rightarrow> exn + unit" where
  "validate_policy_nodes c =
     (if valid_next_nodes_policy c = ''allow_none'' \<and> valid_next_nodes c \<noteq> []
        then Inl (ValueError ''allow_none valid_next_nodes_policy cannot take a list of valid_next_nodes'')
      else if valid_next_nodes_policy c = ''custom'' \<and> valid_next_nodes c = []
        then Inl (ValueError ''custom valid_next_nodes_policy policy requires a list of valid_next_nodes'')
      else if valid_previous_nodes_policy c = ''allow_none'' \<and> valid_previous_nodes c \<noteq> []
        then Inl (ValueError ''allow_none valid_previous_nodes_policy cannot take a list of valid_previous_nodes'')
      else if valid_previous_nodes_policy c = ''custom'' \<and> valid_previous_nodes c = []
        then Inl (ValueError ''custom valid_previous_nodes_policy policy requires a list of valid_previous_nodes'')
      else if valid_incoming_edges_policy c = ''allow_none'' \<and> valid_incoming_edges c \<noteq> []
        then Inl (ValueError ''allow_none valid_incoming_edges_policy cannot take a list of valid_incoming_edges'')
      else if valid_incoming_edges_policy c = ''custom'' \<and> valid_incoming_edges c = []
        then Inl (ValueError ''custom valid_incoming_edges_policy policy requires a list of valid_incoming_edges'')
      else if valid_outgoing_edges_policy c = ''allow_none'' \<and> valid_outgoing_edges c \<noteq> []
        then Inl (ValueError ''allow_none valid_outgoing_edges_policy cannot take a list of valid_outgoing_edges'')
      else if valid_outgoing_edges_policy c = ''custom'' \<and> valid_outgoing_edges c = []
        then Inl (ValueError ''custom valid_outgoing_edges_policy policy requires a list of valid_outgoing_edges'')
      else Inr ())"

definition validate :: "TaskConstraints \<Rightarrow> exn + unit" where
  "validate c =
     (case validate_max_spawn_count c of
        Inl e \<Rightarrow> Inl e
      | Inr _ \<Rightarrow>
          (case validate_policy_values c of
             Inl e \<Rightarrow> Inl e
           | Inr _ \<Rightarrow> validate_policy_nodes c))"

text \<open>
  The constructor \<^verbatim>\<open>TaskConstraints.__init__\<close>: it stores the nine arguments and calls
  \<^verbatim>\<open>validate\<close>; an exception there leaves the caller without an object.
\<close>

definition TaskConstraints_init ::
  "int option \<Rightarrow> string \<Rightarrow> string list \<Rightarrow> string \<Rightarrow> string list \<Rightarrow>
   string \<Rightarrow> (string \<times> string) list \<Rightarrow> string \<Rightarrow> (string \<times> string) list \<Rightarrow>
   exn + TaskConstraints" where
  "TaskConstraints_init msc nnp nn pnp pn iep ie oep oe =
     (let c = \<lparr> max_spawn_count = msc,
                valid_next_nodes_policy = nnp, valid_next_nodes = nn,
                valid_previous_nodes_policy = pnp, valid_previous_nodes = pn,
                valid_incoming_edges_policy = iep, valid_incoming_edges = ie,
                valid_outgoing_edges_policy = oep, valid_outgoing_edges = oe \<rparr>
      in case validate c of Inl e \<Rightarrow> Inl e | Inr _ \<Rightarrow> Inr c)"

text \<open>The default record \<^verbatim>\<open>TaskConstraints()\<close>.\<close>

definition default_constraints :: TaskConstraints where
  "default_constraints =
     \<lparr> max_spawn_count = None,
       valid_next_nodes_policy = ''allow_all'', valid_next_nodes = [],
       valid_previous_nodes_policy = ''allow_all'', valid_previous_nodes = [],
       valid_incoming_edges_policy = ''allow_all'', valid_incoming_edges = [],
       valid_outgoing_edges_policy = ''allow_all'', valid_outgoing_edges = [] \<rparr>"

section \<open>Tasks and task bodies (workflow.py)\<close>

text \<open>
  The four status strings the orchestrator ever stores. \<^verbatim>\<open>check_task_status\<close> answers
  \<^verbatim>\<open>'unknown'\<close> for a key without status; that is \<open>None\<close> here.
\<close>

datatype status = Pending | Running | Done | Failed

text \<open>
  A task body is a Python callable \<^verbatim>\<open>func(wf_id, task_id, inputs, orchestrator)\<close>. What
  it can do to the orchestrator is call its methods, so a body is modelled by the tree of
  the calls it makes: each node is one call, and the continuation receives what the call
  returned or raised (a body that does not catch an exception re-raises it in its
  continuation). \<open>Return\<close> is the body's return value, \<open>Raise\<close> an exception
  leaving the body. The arguments of \<open>SpawnTask\<close> are those of \<^verbatim>\<open>spawn_task\<close>:
  workflow id, creator id, new task, new edges, input data, skip_visual_edge.
\<close>

datatype 't prog =
    Return pyval
  | Raise exn
  | SpawnTask string string 't "(string \<times> string) list" pyval bool "exn + unit \<Rightarrow> 't prog"
  | CompleteTask string string pyval "exn + unit \<Rightarrow> 't prog"
  | CheckTaskStatus string string "status option \<times> pyval \<Rightarrow> 't prog"

datatype Task =
  Task (task_id: string)
       (func: "string \<Rightarrow> string \<Rightarrow> pyval \<Rightarrow> Task prog")
       (constraints: TaskConstraints)
       (metadata: "(string \<times> pyval) list")

section \<open>Policy checker (workflow.py)\<close>

definition check_node_against_policy :: "Task \<Rightarrow> Task \<Rightarrow> string \<Rightarrow> exn + unit" where
  "check_node_against_policy taskA taskB direction =
     (if direction = ''next'' then
        (let policy = valid_next_nodes_policy (constraints taskA) in
         if policy = ''allow_all'' then Inr ()
         else if policy = ''allow_none''
           then Inl (RuntimeError (''Task '' @ task_id taskA @ '' cannot spawn any child nodes.''))
         else if policy = ''custom'' then
           (if task_id taskB \<notin> set (valid_next_nodes (constraints taskA))
              then Inl (RuntimeError (''Task '' @ task_id taskA @ '' not allowed to spawn ''
                                      @ task_id taskB @ ''.''))
            else Inr ())
         else Inr ())
      else
        (let policy = valid_previous_nodes_policy (constraints taskB) in
         if policy = ''allow_all'' then Inr ()
         else if policy = ''allow_none''
           then Inl (RuntimeError (''Task '' @ task_id taskB @ '' cannot have any parents.''))
         else if policy = ''custom'' then
           (if task_id taskA \<notin> set (valid_previous_nodes (constraints taskB))
              then Inl (RuntimeError (''Task '' @ task_id taskB @ '' not allowed to have ''
                                      @ task_id taskA @ '' as a creator.''))
            else Inr ())
         else Inr ()))"

text \<open>
  The second argument of \<^verbatim>\<open>check_edge_against_policy\<close> is a task object at three of its
  four call sites and a task id (a string) at the fourth, in \<^verbatim>\<open>spawn_task\<close>.
  Reading \<^verbatim>\<open>.task_id\<close> of a string raises.
\<close>

datatype task_arg = TaskObj Task | TaskName string

fun arg_task_id :: "task_arg \<Rightarrow> exn + string" where
  "arg_task_id (TaskObj t) = Inr (task_id t)"
| "arg_task_id (TaskName n) = Inl AttributeError"

text \<open>
  In the \<^verbatim>\<open>custom\<close> branch the source compares \<^verbatim>\<open>policy\<close> (not \<^verbatim>\<open>direction\<close>) with
  \<^verbatim>\<open>'outgoing'\<close> and \<^verbatim>\<open>'incoming'\<close>; \<^verbatim>\<open>and\<close> evaluates its right operand only when
  the left one holds.
\<close>

definition check_edge_against_policy :: "Task \<Rightarrow> task_arg \<Rightarrow> string \<Rightarrow> exn + unit" where
  "check_edge_against_policy taskA taskB direction =
     (let policy = (if direction = ''outgoing''
                    then valid_outgoing_edges_policy (constraints taskA)
                    else valid_incoming_edges_policy (constraints taskA));
          valid_edges = (if direction = ''outgoing''
                         then valid_outgoing_edges (constraints taskA)
                         else valid_incoming_edges (constraints taskA))
      in
        if policy = ''allow_all'' then Inr ()
        else if policy = ''allow_none''
          then Inl (RuntimeError (''Task '' @ task_id taskA @ '' cannot create '' @ direction
                                  @ '' edges.''))
        else if policy = ''custom'' then
          (case (if policy = ''outgoing'' then
                   (case arg_task_id taskB of
                      Inl e \<Rightarrow> Inl e
                    | Inr b \<Rightarrow>
                        if (task_id taskA, b) \<notin> set valid_edges
                        then Inl (RuntimeError (''Edge '' @ task_id taskA @ ''->'' @ b
                                   @ '' not in valid_outgoing_edges of '' @ task_id taskA @ ''.''))
                        else Inr ())
                 else Inr ()) of
             Inl e \<Rightarrow> Inl e
           | Inr _ \<Rightarrow>
               (if policy = ''incoming'' then
                  (case arg_task_id taskB of
                     Inl e \<Rightarrow> Inl e
                   | Inr b \<Rightarrow>
                       if (b, task_id taskA) \<notin> set valid_edges
                       then Inl (RuntimeError (''Edge '' @ task_id taskA @ ''->'' @ b
                                  @ '' not in valid_incoming_edges of '' @ task_id taskA @ ''.''))
                       else Inr ())
                else Inr ()))
        else Inr ())"

section \<open>Workflow graph (workflow.py)\<close>

text \<open>
  \<^verbatim>\<open>tasks\<close> is a Python dict, which iterates in insertion order: an association list
  with \<^const>\<open>map_of\<close> for lookup and \<^const>\<open>AList.update\<close> for item assignment (in
  place for a key that is there, at the end for a new one).
\<close>

record Workflow =
  workflow_id :: string
  tasks :: "(string \<times> Task) list"
  edges :: "(string \<times> string) list"
  visual_edges :: "(string \<times> string) list"
  wf_visualization_counter :: int

definition Workflow_init :: "string \<Rightarrow> Workflow" where
  "Workflow_init wid =
     \<lparr> workflow_id = wid, tasks = [], edges = [], visual_edges = [],
       wf_visualization_counter = 1 \<rparr>"

text \<open>
  \<^verbatim>\<open>networkx\<close> is an external library. The graph handed to it has the task ids as nodes
  and the pairs of \<^verbatim>\<open>edges\<close> as arcs (\<^verbatim>\<open>add_edge\<close> adds missing endpoints as nodes);
  \<^verbatim>\<open>nx.is_directed_acyclic_graph\<close> is taken by its contract: it answers whether the
  directed graph has no directed cycle, a self-loop being a cycle.
\<close>

definition is_directed_acyclic_graph :: "string list \<Rightarrow> (string \<times> string) list \<Rightarrow> bool" where
  "is_directed_acyclic_graph nodes arcs = acyclic (set arcs)"

definition assert_no_cycle :: "Workflow \<Rightarrow> exn + unit" where
  "assert_no_cycle wfl =
     (if \<not> is_directed_acyclic_graph (map fst (tasks wfl)) (edges wfl)
      then Inl (ValueError ''DAG cycle detected in workflow registration.'')
      else Inr ())"

text \<open>The loop over \<^verbatim>\<open>dependencies\<close> of \<^verbatim>\<open>add_task\<close>.\<close>

fun add_dependencies :: "Task \<Rightarrow> string list \<Rightarrow> Workflow \<Rightarrow> Workflow \<times> (exn + unit)" where
  "add_dependencies task [] wfl = (wfl, Inr ())"
| "add_dependencies task (dep # deps) wfl =
     (case map_of (tasks wfl) dep of
        None \<Rightarrow> (wfl, Inl (ValueError (''Dependency '' @ dep @ '' not in '' @ workflow_id wfl)))
      | Some dep_obj \<Rightarrow>
          (case check_node_against_policy dep_obj task ''next'' of
             Inl e \<Rightarrow> (wfl, Inl e)
           | Inr _ \<Rightarrow>
          (case check_node_against_policy dep_obj task ''previous'' of
             Inl e \<Rightarrow> (wfl, Inl e)
           | Inr _ \<Rightarrow>
          (case check_edge_against_policy task (TaskObj dep_obj) ''incoming'' of
             Inl e \<Rightarrow> (wfl, Inl e)
           | Inr _ \<Rightarrow>
          (case check_edge_against_policy dep_obj (TaskObj task) ''outgoing'' of
             Inl e \<Rightarrow> (wfl, Inl e)
           | Inr _ \<Rightarrow>
               add_dependencies task deps
                 (wfl\<lparr> edges := edges wfl @ [(dep, task_id task)],
                      visual_edges := visual_edges wfl @ [(dep, task_id task)] \<rparr>))))))"

text \<open>
  \<^verbatim>\<open>Workflow.add_task\<close>. The workflow object is mutated in place, so on an exception the
  caller still holds the partly updated workflow: both are returned. The rendering call
  \<^verbatim>\<open>self.visualize()\<close> writes a picture and changes nothing of the workflow.
\<close>

definition add_task :: "Task \<Rightarrow> string list \<Rightarrow> Workflow \<Rightarrow> Workflow \<times> (exn + unit)" where
  "add_task task dependencies wfl =
     (if map_of (tasks wfl) (task_id task) \<noteq> None
      then (wfl, Inl (ValueError (''Task '' @ task_id task @ '' already in '' @ workflow_id wfl)))
      else
        (case add_dependencies task dependencies
                (wfl\<lparr> tasks := AList.update (task_id task) task (tasks wfl) \<rparr>) of
           (wf1, Inl e) \<Rightarrow> (wf1, Inl e)
         | (wf1, Inr _) \<Rightarrow>
             (case assert_no_cycle wf1 of
                Inl e \<Rightarrow> (wf1, Inl e)
              | Inr _ \<Rightarrow>
                  (wf1\<lparr> wf_visualization_counter := wf_visualization_counter wf1 + 1 \<rparr>,
                   Inr ()))))"

section \<open>Orchestrator state (orchestrator.py)\<close>

text \<open>
  The dictionaries of \<^verbatim>\<open>Orchestrator.__init__\<close>, keyed as in the source (the dict
  \<^verbatim>\<open>processes\<close> is never read or written and is left out). \<open>invocations\<close> is a history
  variable that the source does not have: \<open>task_runner\<close> appends the key of a task to it
  at the point where it calls the task's body. \<open>spawned\<close> is a second one:
  \<open>spawn_task\<close> appends the key of the creator to it when it returns normally. Nothing
  ever reads them; they are there to state how often a body runs and how often a task
  has spawned. \<open>early\<close> and \<open>late_edges\<close> are two more, for the order of dispatch:
  when \<open>task_runner\<close> calls the body of a task \<open>t\<close>, it appends \<open>(w, p, t)\<close> to \<open>early\<close> for
  every predecessor \<open>p\<close> of \<open>t\<close> under the edges of that moment that is neither done nor
  failed; when \<open>spawn_task\<close> appends an edge \<open>(src, dst)\<close> to the edges while an entry for
  \<open>dst\<close> is in the ready queue, it appends \<open>(w, src, dst)\<close> to \<open>late_edges\<close>.
\<close>

record Orchestrator =
  workflows :: "string \<rightharpoonup> Workflow"
  ready_queue :: "string \<rightharpoonup> (string \<times> pyval) list"
  task_status :: "string \<times> string \<rightharpoonup> status"
  task_inputs :: "string \<times> string \<rightharpoonup> pyval"
  task_outputs :: "string \<times> string \<rightharpoonup> pyval"
  spawn_counts :: "string \<times> string \<rightharpoonup> int"
  running_loops :: "string \<rightharpoonup> bool"
  run_counter :: "string \<rightharpoonup> int"
  execution_history :: "string \<times> string \<rightharpoonup> int"
  visualization_counter :: "string \<rightharpoonup> int"
  invocations :: "(string \<times> string) list"
  spawned :: "(string \<times> string) list"
  early :: "(string \<times> string \<times> string) list"
  late_edges :: "(string \<times> string \<times> string) list"

definition Orchestrator_init :: Orchestrator where
  "Orchestrator_init =
     \<lparr> workflows = Map.empty, ready_queue = Map.empty, task_status = Map.empty,
       task_inputs = Map.empty, task_outputs = Map.empty, spawn_counts = Map.empty,
       running_loops = Map.empty, run_counter = Map.empty, execution_history = Map.empty,
       visualization_counter = Map.empty, invocations = [], spawned = [],
       early = [], late_edges = [] \<rparr>"

text \<open>The task ids that have an entry in the ready queue of workflow \<open>w\<close>.\<close>

definition waiting :: "string \<Rightarrow> Orchestrator \<Rightarrow> string list" where
  "waiting w s = map fst (case ready_queue s w of None \<Rightarrow> [] | Some q \<Rightarrow> q)"

definition register_workflow :: "Workflow \<Rightarrow> Orchestrator \<Rightarrow> Orchestrator \<times> (exn + unit)" where
  "register_workflow wfl s =
     (let w = workflow_id wfl in
      if workflows s w \<noteq> None
      then (s, Inl (ValueError (''Workflow '' @ w @ '' already registered.'')))
      else
        (s\<lparr> workflows := (workflows s)(w \<mapsto> wfl),
            task_status := fold (\<lambda>t m. m((w, t) \<mapsto> Pending)) (map fst (tasks wfl)) (task_status s),
            spawn_counts := fold (\<lambda>t m. m((w, t) \<mapsto> 0)) (map fst (tasks wfl)) (spawn_counts s),
            ready_queue := (ready_queue s)(w \<mapsto> []),
            running_loops := (running_loops s)(w \<mapsto> False),
            run_counter := (run_counter s)(w \<mapsto> 0),
            visualization_counter := (visualization_counter s)(w \<mapsto> 1) \<rparr>,
         Inr ()))"

definition complete_task :: "string \<Rightarrow> string \<Rightarrow> pyval \<Rightarrow> Orchestrator \<Rightarrow> Orchestrator \<times> (exn + unit)" where
  "complete_task w t result s =
     (case task_status s (w, t) of
        None \<Rightarrow> (s, Inl KeyError)
      | Some st \<Rightarrow>
          if st \<noteq> Running \<and> st \<noteq> Pending then (s, Inr ())
          else (s\<lparr> task_status := (task_status s)((w, t) \<mapsto> Done),
                   task_outputs := (task_outputs s)((w, t) \<mapsto> result) \<rparr>,
                Inr ()))"

definition check_task_status :: "string \<Rightarrow> string \<Rightarrow> Orchestrator \<Rightarrow> status option \<times> pyval" where
  "check_task_status w t s =
     (let st = task_status s (w, t) in
      (st, if st = Some Done
           then (case task_outputs s (w, t) of None \<Rightarrow> PyNone | Some v \<Rightarrow> v)
           else PyNone))"

section \<open>Spawn service (orchestrator.py)\<close>

definition abort_message :: "string \<Rightarrow> string \<Rightarrow> string" where
  "abort_message w error_msg =
     ''Workflow '' @ w @ '' terminated due to constraint violation: '' @ error_msg"

text \<open>The loop of \<^verbatim>\<open>fail_workflow\<close> over the task ids of the workflow.\<close>

fun fail_tasks :: "string \<Rightarrow> string list \<Rightarrow> Orchestrator \<Rightarrow> Orchestrator \<times> (exn + unit)" where
  "fail_tasks w [] s = (s, Inr ())"
| "fail_tasks w (t # ts) s =
     (case task_status s (w, t) of
        None \<Rightarrow> (s, Inl KeyError)
      | Some st \<Rightarrow>
          fail_tasks w ts
            (if st = Pending \<or> st = Running
             then s\<lparr> task_status := (task_status s)((w, t) \<mapsto> Failed) \<rparr>
             else s))"

text \<open>
  \<^verbatim>\<open>fail_workflow\<close>, the closure inside \<^verbatim>\<open>spawn_task\<close>, never returns: the second
  component is always the exception that leaves it.
\<close>

definition fail_workflow :: "string \<Rightarrow> string \<Rightarrow> Orchestrator \<Rightarrow> Orchestrator \<times> (exn + 'a)" where
  "fail_workflow w error_msg s =
     (case ready_queue s w of
        None \<Rightarrow> (s, Inl KeyError)
      | Some _ \<Rightarrow>
          (let s1 = s\<lparr> ready_queue := (ready_queue s)(w \<mapsto> []) \<rparr> in
           case workflows s1 w of
             None \<Rightarrow> (s1, Inl KeyError)
           | Some wfl \<Rightarrow>
               (case fail_tasks w (map fst (tasks wfl)) s1 of
                  (s2, Inl e) \<Rightarrow> (s2, Inl e)
                | (s2, Inr _) \<Rightarrow>
                    (s2\<lparr> running_loops := (running_loops s2)(w \<mapsto> False) \<rparr>,
                     Inl (RuntimeError (abort_message w error_msg))))))"

text \<open>
  Lines 194 to 215 of \<^verbatim>\<open>spawn_task\<close>: the creator, its spawn quota, the two node
  checks and the duplicate check. Nothing is changed unless a check aborts the workflow.
\<close>

definition spawn_checks :: "string \<Rightarrow> string \<Rightarrow> Task \<Rightarrow> Orchestrator \<Rightarrow> Orchestrator \<times> (exn + unit)" where
  "spawn_checks w creator_task_id new_task s =
     (case workflows s w of
        None \<Rightarrow> (s, Inl KeyError)
      | Some wfl \<Rightarrow>
     (case map_of (tasks wfl) creator_task_id of
        None \<Rightarrow> fail_workflow w (''Creator '' @ creator_task_id @ '' not in wf '' @ w) s
      | Some creator_obj \<Rightarrow>
     (case (case max_spawn_count (constraints creator_obj) of
              None \<Rightarrow> Inr False
            | Some k \<Rightarrow>
                (case spawn_counts s (w, creator_task_id) of
                   None \<Rightarrow> Inl KeyError
                 | Some c \<Rightarrow> Inr (c \<ge> k))) of
        Inl e \<Rightarrow> (s, Inl e)
      | Inr True \<Rightarrow> fail_workflow w (''Task '' @ creator_task_id @ '' exceeded spawn count'') s
      | Inr False \<Rightarrow>
     (case (case check_node_against_policy creator_obj new_task ''next'' of
              Inl e \<Rightarrow> Inl e
            | Inr _ \<Rightarrow> check_node_against_policy creator_obj new_task ''previous'') of
        Inl (RuntimeError m) \<Rightarrow> fail_workflow w m s
      | Inl e \<Rightarrow> (s, Inl e)
      | Inr _ \<Rightarrow>
          if map_of (tasks wfl) (task_id new_task) \<noteq> None
          then fail_workflow w (''Task '' @ task_id new_task @ '' already in wf '' @ w) s
          else (s, Inr ())))))"

text \<open>
  Lines 217 to 226: the new task enters the workflow, and the counters are set.
  \<^verbatim>\<open>self.spawn_counts[key] += 1\<close> reads the creator's count after the new task's count
  has been stored.
\<close>

definition spawn_insert :: "string \<Rightarrow> string \<Rightarrow> Task \<Rightarrow> bool \<Rightarrow> Orchestrator \<Rightarrow> Orchestrator \<times> (exn + unit)" where
  "spawn_insert w creator_task_id new_task skip_visual_edge s =
     (case workflows s w of
        None \<Rightarrow> (s, Inl KeyError)
      | Some wfl \<Rightarrow>
          (let n = task_id new_task;
               wfl1 = wfl\<lparr> tasks := AList.update n new_task (tasks wfl) \<rparr>;
               s1 = s\<lparr> workflows := (workflows s)(w \<mapsto> wfl1),
                       task_status := (task_status s)((w, n) \<mapsto> Pending),
                       spawn_counts := (spawn_counts s)((w, n) \<mapsto> 0) \<rparr>
           in case spawn_counts s1 (w, creator_task_id) of
                None \<Rightarrow> (s1, Inl KeyError)
              | Some c \<Rightarrow>
                  (let s2 = s1\<lparr> spawn_counts := (spawn_counts s1)((w, creator_task_id) \<mapsto> c + 1) \<rparr>;
                       parent_step = (case execution_history s2 (w, creator_task_id) of
                                        None \<Rightarrow> 0 | Some k \<Rightarrow> k);
                       s3 = s2\<lparr> execution_history :=
                                  (execution_history s2)((w, n) \<mapsto> parent_step + 1) \<rparr>
                   in if \<not> skip_visual_edge
                      then (s3\<lparr> workflows := (workflows s3)
                                   (w \<mapsto> wfl1\<lparr> visual_edges :=
                                                 visual_edges wfl1 @ [(creator_task_id, n)] \<rparr>) \<rparr>,
                            Inr ())
                      else (s3, Inr ()))))"

text \<open>
  Lines 229 to 246: the loop over \<^verbatim>\<open>new_edges\<close>. The workflow object is a local of
  \<^verbatim>\<open>spawn_task\<close> there; here it is read from the state, where it has been since the first
  line of \<^verbatim>\<open>spawn_task\<close>.
\<close>

fun add_new_edges ::
  "string \<Rightarrow> string \<Rightarrow> string \<Rightarrow> (string \<times> string) list \<Rightarrow> Orchestrator \<Rightarrow> Orchestrator \<times> (exn + unit)" where
  "add_new_edges w creator_task_id n [] s = (s, Inr ())"
| "add_new_edges w creator_task_id n ((src, dst) # es) s =
     (if src \<notin> set [creator_task_id, n] \<and> dst \<notin> set [creator_task_id, n]
      then fail_workflow w (''The edge ('' @ src @ '', '' @ dst
                            @ '') is not related to the creator or the new task.'') s
      else
     (case workflows s w of
        None \<Rightarrow> (s, Inl KeyError)
      | Some wfl \<Rightarrow>
     (case map_of (tasks wfl) src of
        None \<Rightarrow> (s, Inl KeyError)
      | Some src_object \<Rightarrow>
     (case map_of (tasks wfl) dst of
        None \<Rightarrow> (s, Inl KeyError)
      | Some dst_object \<Rightarrow>
     (case (case check_edge_against_policy dst_object (TaskObj src_object) ''incoming'' of
              Inl e \<Rightarrow> Inl e
            | Inr _ \<Rightarrow> check_edge_against_policy src_object (TaskName dst) ''outgoing'') of
        Inl (RuntimeError m) \<Rightarrow> fail_workflow w m s
      | Inl e \<Rightarrow> (s, Inl e)
      | Inr _ \<Rightarrow>
          add_new_edges w creator_task_id n es
            (s\<lparr> workflows := (workflows s)
                  (w \<mapsto> wfl\<lparr> edges := edges wfl @ [(src, dst)],
                               visual_edges := visual_edges wfl @ [(src, dst)] \<rparr>),
                late_edges := late_edges s @
                  (if dst \<in> set (waiting w s) then [(w, src, dst)] else []) \<rparr>))))))"

definition is_acyclic :: "Workflow \<Rightarrow> bool" where
  "is_acyclic wfl = is_directed_acyclic_graph (map fst (tasks wfl)) (edges wfl)"

text \<open>Lines 248 to 255: the cycle check, and the immediate enqueue of a new root.\<close>

definition spawn_finish :: "string \<Rightarrow> Task \<Rightarrow> pyval \<Rightarrow> Orchestrator \<Rightarrow> Orchestrator \<times> (exn + unit)" where
  "spawn_finish w new_task input_data s =
     (case workflows s w of
        None \<Rightarrow> (s, Inl KeyError)
      | Some wfl \<Rightarrow>
          if \<not> is_acyclic wfl then fail_workflow w ''spawn_task caused cycle'' s
          else if input_data \<noteq> PyNone then
            (let has_deps = list_ex (\<lambda>(src, dst). dst = task_id new_task) (edges wfl) in
             if \<not> has_deps then
               (case ready_queue s w of
                  None \<Rightarrow> (s, Inl KeyError)
                | Some q \<Rightarrow>
                    (s\<lparr> ready_queue := (ready_queue s)(w \<mapsto> q @ [(task_id new_task, input_data)]) \<rparr>,
                     Inr ()))
             else (s, Inr ()))
          else (s, Inr ()))"

text \<open>
  \<^verbatim>\<open>spawn_task\<close>. The parameter \<^verbatim>\<open>new_edges\<close> defaults to \<^verbatim>\<open>None\<close>, which
  \<^verbatim>\<open>if new_edges:\<close> treats as the empty list; absent \<^verbatim>\<open>input_data\<close> is \<open>PyNone\<close>.
\<close>

definition spawn_task ::
  "string \<Rightarrow> string \<Rightarrow> Task \<Rightarrow> (string \<times> string) list \<Rightarrow> pyval \<Rightarrow> bool \<Rightarrow> Orchestrator
   \<Rightarrow> Orchestrator \<times> (exn + unit)" where
  "spawn_task w creator_task_id new_task new_edges input_data skip_visual_edge s =
     (case spawn_checks w creator_task_id new_task s of
        (s1, Inl e) \<Rightarrow> (s1, Inl e)
      | (s1, Inr _) \<Rightarrow>
     (case spawn_insert w creator_task_id new_task skip_visual_edge s1 of
        (s2, Inl e) \<Rightarrow> (s2, Inl e)
      | (s2, Inr _) \<Rightarrow>
     (case add_new_edges w creator_task_id (task_id new_task) new_edges s2 of
        (s3, Inl e) \<Rightarrow> (s3, Inl e)
      | (s3, Inr _) \<Rightarrow>
     (case spawn_finish w new_task input_data s3 of
        (s4, Inl e) \<Rightarrow> (s4, Inl e)
      | (s4, Inr _) \<Rightarrow> (s4\<lparr> spawned := spawned s4 @ [(w, creator_task_id)] \<rparr>, Inr ())))))"

section \<open>Running task bodies (orchestrator.py)\<close>

primrec exec :: "Task prog \<Rightarrow> Orchestrator \<Rightarrow> Orchestrator \<times> (exn + pyval)" where
  "exec (Return v) s = (s, Inr v)"
| "exec (Raise e) s = (s, Inl e)"
| "exec (SpawnTask w c nt es inp skip k) s =
     (case spawn_task w c nt es inp skip s of (s', r) \<Rightarrow> exec (k r) s')"
| "exec (CompleteTask w t v k) s =
     (case complete_task w t v s of (s', r) \<Rightarrow> exec (k r) s')"
| "exec (CheckTaskStatus w t k) s = exec (k (check_task_status w t s)) s"

text \<open>
  \<^verbatim>\<open>rev\<close> in \<^verbatim>\<open>run_workflow\<close> and \<^verbatim>\<open>run_helper\<close> maps a task id to its predecessors
  in the order of \<^verbatim>\<open>edges\<close>;
  \<^verbatim>\<open>rev.get(t_id, [])\<close> is \<open>preds_of\<close>, and \<^verbatim>\<open>t_id not in rev\<close> is
  \<open>preds_of es t = []\<close>.
\<close>

definition preds_of :: "(string \<times> string) list \<Rightarrow> string \<Rightarrow> string list" where
  "preds_of es t = map fst (filter (\<lambda>(p, c). c = t) es)"

text \<open>
  \<^verbatim>\<open>task_runner\<close>: the \<^verbatim>\<open>try\<close> block looks the task up, calls its body and
  completes the task; \<^verbatim>\<open>except Exception\<close> catches whatever any of the three raised
  and stores \<^verbatim>\<open>'failed'\<close>.
\<close>

definition task_runner :: "string \<Rightarrow> string \<Rightarrow> pyval \<Rightarrow> Orchestrator \<Rightarrow> Orchestrator \<times> (exn + unit)" where
  "task_runner w t inputs s =
     (case (case workflows s w of
              None \<Rightarrow> (s, Inl KeyError)
            | Some wfl \<Rightarrow>
                (case map_of (tasks wfl) t of
                   None \<Rightarrow> (s, Inl KeyError)
                 | Some task_obj \<Rightarrow>
                     (case exec (func task_obj w t inputs)
                             (s\<lparr> invocations := invocations s @ [(w, t)],
                                 early := early s @
                                   map (\<lambda>p. (w, p, t))
                                     (filter (\<lambda>p. task_status s (w, p) \<noteq> Some Done \<and>
                                                  task_status s (w, p) \<noteq> Some Failed)
                                        (preds_of (edges wfl) t)) \<rparr>) of
                        (s1, Inl e) \<Rightarrow> (s1, Inl e)
                      | (s1, Inr res) \<Rightarrow> complete_task w t res s1))) of
        (s2, Inl e) \<Rightarrow> (s2\<lparr> task_status := (task_status s2)((w, t) \<mapsto> Failed) \<rparr>, Inr ())
      | (s2, Inr _) \<Rightarrow> (s2, Inr ()))"

definition spawn_parallel :: "string \<Rightarrow> string \<Rightarrow> pyval \<Rightarrow> Orchestrator \<Rightarrow> Orchestrator \<times> (exn + unit)" where
  "spawn_parallel w t inputs s =
     (case task_status s (w, t) of
        None \<Rightarrow> (s, Inl KeyError)
      | Some st \<Rightarrow>
          if st = Pending
          then task_runner w t inputs
                 (s\<lparr> task_status := (task_status s)((w, t) \<mapsto> Running),
                     task_inputs := (task_inputs s)((w, t) \<mapsto> inputs) \<rparr>)
          else (s, Inr ()))"

section \<open>Scheduler loop (orchestrator.py)\<close>

text \<open>
  \<^verbatim>\<open>visualize\<close> draws the graph with an external renderer, which is outside the model.
  What is kept is what it reads from and writes to the orchestrator: the status of every
  task, the execution step of every task that is not pending (a subscript, so a missing
  entry raises), and the picture counter.
\<close>

fun visualize_nodes :: "string \<Rightarrow> string list \<Rightarrow> Orchestrator \<Rightarrow> exn + unit" where
  "visualize_nodes w [] s = Inr ()"
| "visualize_nodes w (t # ts) s =
     (case task_status s (w, t) of
        None \<Rightarrow> Inl KeyError
      | Some st \<Rightarrow>
          if st \<noteq> Pending \<and> execution_history s (w, t) = None then Inl KeyError
          else visualize_nodes w ts s)"

definition visualize :: "string \<Rightarrow> Orchestrator \<Rightarrow> Orchestrator \<times> (exn + unit)" where
  "visualize w s =
     (case workflows s w of
        None \<Rightarrow> (s, Inr ())
      | Some wfl \<Rightarrow>
          (case visualize_nodes w (map fst (tasks wfl)) s of
             Inl e \<Rightarrow> (s, Inl e)
           | Inr _ \<Rightarrow>
               (case visualization_counter s w of
                  None \<Rightarrow> (s, Inl KeyError)
                | Some k \<Rightarrow>
                    (s\<lparr> visualization_counter := (visualization_counter s)(w \<mapsto> k + 1) \<rparr>,
                     Inr ()))))"

text \<open>
  The inner loop of the discovery pass, over the predecessors of one task, with its two
  accumulators \<^verbatim>\<open>all_done\<close> and \<^verbatim>\<open>inputs\<close>.
\<close>

fun collect_inputs ::
  "string \<Rightarrow> string list \<Rightarrow> Orchestrator \<Rightarrow> bool \<Rightarrow> pyval list \<Rightarrow> exn + (bool \<times> pyval list)" where
  "collect_inputs w [] s all_done inputs = Inr (all_done, inputs)"
| "collect_inputs w (p # ps) s all_done inputs =
     (case task_status s (w, p) of
        None \<Rightarrow> Inl KeyError
      | Some st \<Rightarrow>
          collect_inputs w ps s
            (if st = Pending \<or> st = Running then False else all_done)
            (case task_outputs s (w, p) of
               None \<Rightarrow> inputs
             | Some p_output \<Rightarrow> if truthy p_output then inputs @ [p_output] else inputs))"

text \<open>The outer loop of the discovery pass, which builds \<^verbatim>\<open>newly_unblocked\<close>.\<close>

fun discover ::
  "string \<Rightarrow> (string \<times> string) list \<Rightarrow> string list \<Rightarrow> Orchestrator \<Rightarrow> (string \<times> pyval) list
   \<Rightarrow> exn + (string \<times> pyval) list" where
  "discover w es [] s newly_unblocked = Inr newly_unblocked"
| "discover w es (t # ts) s newly_unblocked =
     (case task_status s (w, t) of
        None \<Rightarrow> Inl KeyError
      | Some st \<Rightarrow>
          if st = Pending then
            (case collect_inputs w (preds_of es t) s True [] of
               Inl e \<Rightarrow> Inl e
             | Inr (all_done, inputs) \<Rightarrow>
                 discover w es ts s
                   (if all_done then newly_unblocked @ [(t, PyList inputs)] else newly_unblocked))
          else discover w es ts s newly_unblocked)"

fun enqueue_unblocked ::
  "string \<Rightarrow> int \<Rightarrow> (string \<times> pyval) list \<Rightarrow> Orchestrator \<Rightarrow> Orchestrator \<times> (exn + unit)" where
  "enqueue_unblocked w current_step [] s = (s, Inr ())"
| "enqueue_unblocked w current_step ((tid, inputs) # rest) s =
     (case ready_queue s w of
        None \<Rightarrow> (s, Inl KeyError)
      | Some q \<Rightarrow>
          enqueue_unblocked w current_step rest
            (s\<lparr> ready_queue := (ready_queue s)(w \<mapsto> q @ [(tid, inputs)]),
                execution_history := (execution_history s)((w, tid) \<mapsto> current_step) \<rparr>))"

text \<open>
  The \<^verbatim>\<open>while self.ready_queue[wf_id]\<close> loop of \<^verbatim>\<open>run_helper\<close>. Task bodies may
  enqueue more tasks, so the loop need not end: it runs on fuel, and \<open>None\<close> says that
  the fuel did not suffice.
\<close>

fun drain_queue :: "nat \<Rightarrow> string \<Rightarrow> Orchestrator \<Rightarrow> (Orchestrator \<times> (exn + unit)) option" where
  "drain_queue fuel w s =
     (case ready_queue s w of
        None \<Rightarrow> Some (s, Inl KeyError)
      | Some [] \<Rightarrow> Some (s, Inr ())
      | Some ((tid, inputs) # q) \<Rightarrow>
          (case fuel of
             0 \<Rightarrow> None
           | Suc fuel' \<Rightarrow>
               (case spawn_parallel w tid inputs (s\<lparr> ready_queue := (ready_queue s)(w \<mapsto> q) \<rparr>) of
                  (s1, Inl e) \<Rightarrow> Some (s1, Inl e)
                | (s1, Inr _) \<Rightarrow>
                    (case visualize w s1 of
                       (s2, Inl e) \<Rightarrow> Some (s2, Inl e)
                     | (s2, Inr _) \<Rightarrow> drain_queue fuel' w s2))))"

declare drain_queue.simps [simp del]

text \<open>\<^verbatim>\<open>max(...)\<close> of a non-empty sequence; the empty one raises \<^verbatim>\<open>ValueError\<close>.\<close>

fun max_list :: "int list \<Rightarrow> exn + int" where
  "max_list [] = Inl (ValueError ''max() arg is an empty sequence'')"
| "max_list (x # xs) = Inr (fold max xs x)"

definition run_helper :: "nat \<Rightarrow> string \<Rightarrow> Orchestrator \<Rightarrow> (Orchestrator \<times> (exn + unit)) option" where
  "run_helper fuel w s =
     (case workflows s w of
        None \<Rightarrow> Some (s, Inl KeyError)
      | Some wfl \<Rightarrow>
     (case max_list (map (\<lambda>tid. case execution_history s (w, tid) of None \<Rightarrow> 0 | Some k \<Rightarrow> k)
                        (map fst (tasks wfl))) of
        Inl e \<Rightarrow> Some (s, Inl e)
      | Inr m \<Rightarrow>
     (case discover w (edges wfl) (map fst (tasks wfl)) s [] of
        Inl e \<Rightarrow> Some (s, Inl e)
      | Inr newly_unblocked \<Rightarrow>
     (case enqueue_unblocked w (m + 1) newly_unblocked s of
        (s1, Inl e) \<Rightarrow> Some (s1, Inl e)
      | (s1, Inr _) \<Rightarrow> drain_queue fuel w s1))))"

text \<open>The loop of \<^verbatim>\<open>run_workflow\<close> that enqueues the roots with the user's input.\<close>

fun enqueue_roots ::
  "string \<Rightarrow> (string \<times> string) list \<Rightarrow> (string \<rightharpoonup> pyval) \<Rightarrow> string list \<Rightarrow> Orchestrator
   \<Rightarrow> Orchestrator \<times> (exn + unit)" where
  "enqueue_roots w es input_data [] s = (s, Inr ())"
| "enqueue_roots w es input_data (t # ts) s =
     (if preds_of es t = [] then
        (case ready_queue s w of
           None \<Rightarrow> (s, Inl KeyError)
         | Some q \<Rightarrow>
             enqueue_roots w es input_data ts
               (s\<lparr> ready_queue := (ready_queue s)
                     (w \<mapsto> q @ [(t, case input_data t of None \<Rightarrow> PyList [] | Some v \<Rightarrow> v)]) \<rparr>))
      else enqueue_roots w es input_data ts s)"

text \<open>\<^verbatim>\<open>[self.task_status[(wf_id, t)] for t in wf.tasks]\<close>\<close>

fun statuses :: "string \<Rightarrow> string list \<Rightarrow> Orchestrator \<Rightarrow> exn + status list" where
  "statuses w [] s = Inr []"
| "statuses w (t # ts) s =
     (case task_status s (w, t) of
        None \<Rightarrow> Inl KeyError
      | Some st \<Rightarrow> (case statuses w ts s of Inl e \<Rightarrow> Inl e | Inr sts \<Rightarrow> Inr (st # sts)))"

text \<open>
  The \<^verbatim>\<open>while True\<close> loop of \<^verbatim>\<open>run_workflow\<close>, on fuel as well; the sleep between two
  passes has no effect on the state.
\<close>

fun run_loop :: "nat \<Rightarrow> string \<Rightarrow> Orchestrator \<Rightarrow> (Orchestrator \<times> (exn + unit)) option" where
  "run_loop 0 w s = None"
| "run_loop (Suc fuel) w s =
     (case run_helper fuel w s of
        None \<Rightarrow> None
      | Some (s1, Inl e) \<Rightarrow> Some (s1, Inl e)
      | Some (s1, Inr _) \<Rightarrow>
          (case workflows s1 w of
             None \<Rightarrow> Some (s1, Inl KeyError)
           | Some wfl \<Rightarrow>
               (case statuses w (map fst (tasks wfl)) s1 of
                  Inl e \<Rightarrow> Some (s1, Inl e)
                | Inr sts \<Rightarrow>
                    if list_all (\<lambda>st. st = Done \<or> st = Failed) sts
                    then Some (s1\<lparr> running_loops := (running_loops s1)(w \<mapsto> False) \<rparr>, Inr ())
                    else run_loop fuel w s1)))"

definition run_workflow ::
  "nat \<Rightarrow> string \<Rightarrow> (string \<rightharpoonup> pyval) \<Rightarrow> Orchestrator \<Rightarrow> (Orchestrator \<times> (exn + unit)) option" where
  "run_workflow fuel w input_data s =
     (case workflows s w of
        None \<Rightarrow> Some (s, Inl (ValueError (''No workflow '' @ w)))
      | Some wfl \<Rightarrow>
     (case running_loops s w of
        None \<Rightarrow> Some (s, Inl KeyError)
      | Some True \<Rightarrow>
          Some (s, Inl (RuntimeError (''Workflow '' @ w @ '' is already running a scheduling loop.'')))
      | Some False \<Rightarrow>
     (case enqueue_roots w (edges wfl) input_data (map fst (tasks wfl))
             (s\<lparr> running_loops := (running_loops s)(w \<mapsto> True) \<rparr>) of
        (s1, Inl e) \<Rightarrow> Some (s1, Inl e)
      | (s1, Inr _) \<Rightarrow> run_loop fuel w s1)))"

section \<open>Example tasks and workflows\<close>

text \<open>A body that returns nothing, and one that returns its inputs.\<close>

definition body_none :: "string \<Rightarrow> string \<Rightarrow> pyval \<Rightarrow> Task prog" where
  "body_none w t inputs = Return PyNone"

definition body_echo :: "string \<Rightarrow> string \<Rightarrow> pyval \<Rightarrow> Task prog" where
  "body_echo w t inputs = Return inputs"

text \<open>
  A task \<open>A\<close> whose outgoing edges are restricted to \<open>(A, C)\<close>, a task \<open>B\<close> whose
  incoming edges are restricted to \<open>(C, B)\<close>, and unconstrained tasks.
\<close>

definition task_A_custom_out :: Task where
  "task_A_custom_out =
     Task ''A'' body_none
       (default_constraints\<lparr> valid_outgoing_edges_policy := ''custom'',
                              valid_outgoing_edges := [(''A'', ''C'')] \<rparr>) []"

definition task_B_custom_in :: Task where
  "task_B_custom_in =
     Task ''B'' body_none
       (default_constraints\<lparr> valid_incoming_edges_policy := ''custom'',
                              valid_incoming_edges := [(''C'', ''B'')] \<rparr>) []"

definition plain_task :: "string \<Rightarrow> Task" where
  "plain_task n = Task n body_echo default_constraints []"

text \<open>
  A workflow \<open>wf\<close> with the static tasks \<open>A\<close> and \<open>B\<close> and the dependency \<open>A \<rightarrow> B\<close>, built
  with \<open>add_task\<close> and registered with a new orchestrator.
\<close>

definition wf_A :: Workflow where
  "wf_A = fst (add_task (plain_task ''A'') [] (Workflow_init ''wf''))"

definition wf_AB :: Workflow where
  "wf_AB = fst (add_task (plain_task ''B'') [''A''] wf_A)"

definition orch_AB :: Orchestrator where
  "orch_AB = fst (register_workflow wf_AB Orchestrator_init)"

text \<open>
  A workflow \<open>zero\<close> whose task \<open>P\<close> returns the integer 0 and whose task \<open>C\<close> depends on
  \<open>P\<close> and returns its inputs.
\<close>

definition body_zero :: "string \<Rightarrow> string \<Rightarrow> pyval \<Rightarrow> Task prog" where
  "body_zero w t inputs = Return (PyInt 0)"

definition wf_zero :: Workflow where
  "wf_zero =
     fst (add_task (plain_task ''C'') [''P'']
            (fst (add_task (Task ''P'' body_zero default_constraints []) []
                    (Workflow_init ''zero''))))"

definition orch_zero :: Orchestrator where
  "orch_zero = fst (register_workflow wf_zero Orchestrator_init)"

text \<open>
  A workflow \<open>late\<close> with one static task \<open>R\<close>. Its body spawns \<open>C\<close> with input data and no
  edges, and then spawns \<open>P\<close> with the edge \<open>P \<rightarrow> C\<close>; an exception of \<open>spawn_task\<close> is
  not caught. The body of \<open>C\<close> asks for the status of \<open>P\<close> and returns it as a string.
\<close>

definition status_name :: "status option \<Rightarrow> string" where
  "status_name st =
     (case st of None \<Rightarrow> ''unknown'' | Some Pending \<Rightarrow> ''pending'' | Some Running \<Rightarrow> ''running''
      | Some Done \<Rightarrow> ''done'' | Some Failed \<Rightarrow> ''failed'')"

definition body_observe_P :: "string \<Rightarrow> string \<Rightarrow> pyval \<Rightarrow> Task prog" where
  "body_observe_P w t inputs = CheckTaskStatus w ''P'' (\<lambda>(st, r). Return (PyStr (status_name st)))"

definition body_late_edge :: "string \<Rightarrow> string \<Rightarrow> pyval \<Rightarrow> Task prog" where
  "body_late_edge w t inputs =
     SpawnTask w t (Task ''C'' body_observe_P default_constraints []) [] (PyInt 1) False
       (\<lambda>r. case r of
               Inl e \<Rightarrow> Raise e
             | Inr _ \<Rightarrow>
                 SpawnTask w t (plain_task ''P'') [(''P'', ''C'')] PyNone False
                   (\<lambda>r. case r of Inl e \<Rightarrow> Raise e | Inr _ \<Rightarrow> Return PyNone))"

definition wf_late :: Workflow where
  "wf_late = fst (add_task (Task ''R'' body_late_edge default_constraints []) []
                    (Workflow_init ''late''))"

definition orch_late :: Orchestrator where
  "orch_late = fst (register_workflow wf_late Orchestrator_init)"

text \<open>
  A workflow \<open>sticky\<close> with one task \<open>T\<close> whose body calls \<^verbatim>\<open>complete_task\<close> for itself and
  then raises; \<open>orch_sticky_dispatched\<close> is the state in which \<open>task_runner\<close> calls that
  body when \<open>T\<close> is dispatched with the inputs \<open>[]\<close>.
\<close>

definition body_complete_then_raise :: "string \<Rightarrow> string \<Rightarrow> pyval \<Rightarrow> Task prog" where
  "body_complete_then_raise w t inputs =
     CompleteTask w t (PyInt 1) (\<lambda>r. Raise (UserError ''boom''))"

definition wf_sticky :: Workflow where
  "wf_sticky = fst (add_task (Task ''T'' body_complete_then_raise default_constraints []) []
                      (Workflow_init ''sticky''))"

definition orch_sticky :: Orchestrator where
  "orch_sticky = fst (register_workflow wf_sticky Orchestrator_init)"

definition orch_sticky_dispatched :: Orchestrator where
  "orch_sticky_dispatched =
     orch_sticky\<lparr> task_status := (task_status orch_sticky)((''sticky'', ''T'') \<mapsto> Running),
                  task_inputs := (task_inputs orch_sticky)((''sticky'', ''T'') \<mapsto> PyList []),
                  invocations := invocations orch_sticky @ [(''sticky'', ''T'')] \<rparr>"

text \<open>The final state and the outcome of a run, when the fuel sufficed.\<close>

definition state_of :: "(Orchestrator \<times> (exn + unit)) option \<Rightarrow> Orchestrator" where
  "state_of x = (case x of None \<Rightarrow> Orchestrator_init | Some (s, r) \<Rightarrow> s)"

definition result_of :: "(Orchestrator \<times> (exn + unit)) option \<Rightarrow> (exn + unit) option" where
  "result_of x = (case x of None \<Rightarrow> None | Some (s, r) \<Rightarrow> Some r)"

definition run_zero :: "(Orchestrator \<times> (exn + unit)) option" where
  "run_zero = run_workflow 10 ''zero'' Map.empty orch_zero"

definition run_late :: "(Orchestrator \<times> (exn + unit)) option" where
  "run_late = run_workflow 10 ''late'' Map.empty orch_late"

definition run_sticky :: "(Orchestrator \<times> (exn + unit)) option" where
  "run_sticky = run_workflow 10 ''sticky'' Map.empty orch_sticky"

text \<open>
  A workflow \<open>quota\<close> with one task \<open>B\<close> that may spawn once and whose body spawns \<open>X\<close> and
  then \<open>Y\<close>, not catching what \<open>spawn_task\<close> raises; \<open>orch_quota_dispatched\<close> is the state
  in which \<open>task_runner\<close> calls that body when \<open>B\<close> is dispatched with the inputs \<open>[]\<close>.
\<close>

definition body_spawn_twice :: "string \<Rightarrow> string \<Rightarrow> pyval \<Rightarrow> Task prog" where
  "body_spawn_twice w t inputs =
     SpawnTask w t (plain_task ''X'') [] inputs False
       (\<lambda>r. case r of
               Inl e \<Rightarrow> Raise e
             | Inr _ \<Rightarrow>
                 SpawnTask w t (plain_task ''Y'') [] inputs False
                   (\<lambda>r. case r of Inl e \<Rightarrow> Raise e | Inr _ \<Rightarrow> Return PyNone))"

definition wf_quota :: Workflow where
  "wf_quota =
     fst (add_task (Task ''B'' body_spawn_twice (default_constraints\<lparr> max_spawn_count := Some 1 \<rparr>) [])
            [] (Workflow_init ''quota''))"

definition orch_quota :: Orchestrator where
  "orch_quota = fst (register_workflow wf_quota Orchestrator_init)"


definition run_quota :: "(Orchestrator \<times> (exn + unit)) option" where
  "run_quota = run_workflow 10 ''quota'' Map.empty orch_quota"

text \<open>
  A workflow \<open>chk\<close> for the checks of \<open>spawn_task\<close>: \<open>A\<close> and \<open>B\<close> with the dependency
  \<open>A \<rightarrow> B\<close>, a task \<open>N\<close> that may not spawn, a task \<open>Q\<close> with the quota 0, and a task \<open>E\<close>
  that may not have outgoing edges. \<open>task_orphan\<close> may not have a creator, and
  \<open>task_sink\<close> may not have incoming edges. In \<open>orch_chk_waiting\<close>, \<open>A\<close> has spawned \<open>X\<close>
  with input data, so that \<open>X\<close> is in the ready queue.
\<close>

definition task_N :: Task where
  "task_N = Task ''N'' body_none (default_constraints\<lparr> valid_next_nodes_policy := ''allow_none'' \<rparr>) []"

definition task_Q :: Task where
  "task_Q = Task ''Q'' body_none (default_constraints\<lparr> max_spawn_count := Some 0 \<rparr>) []"

definition task_E :: Task where
  "task_E = Task ''E'' body_none
              (default_constraints\<lparr> valid_outgoing_edges_policy := ''allow_none'' \<rparr>) []"

definition task_orphan :: Task where
  "task_orphan = Task ''O'' body_none
                   (default_constraints\<lparr> valid_previous_nodes_policy := ''allow_none'' \<rparr>) []"

definition task_sink :: Task where
  "task_sink = Task ''S'' body_none
                 (default_constraints\<lparr> valid_incoming_edges_policy := ''allow_none'' \<rparr>) []"

definition wf_chk :: Workflow where
  "wf_chk =
     fst (add_task task_E []
       (fst (add_task task_Q []
         (fst (add_task task_N []
           (fst (add_task (plain_task ''B'') [''A'']
             (fst (add_task (plain_task ''A'') [] (Workflow_init ''chk''))))))))))"

definition orch_chk :: Orchestrator where
  "orch_chk = fst (register_workflow wf_chk Orchestrator_init)"

definition orch_chk_waiting :: Orchestrator where
  "orch_chk_waiting = fst (spawn_task ''chk'' ''A'' (plain_task ''X'') [] (PyInt 1) False orch_chk)"

text \<open>
  A workflow \<open>mix\<close> in which \<open>C\<close> depends on \<open>P1\<close>, \<open>P2\<close>, \<open>P3\<close> and \<open>P4\<close>, in this order:
  \<open>P1\<close> returns 7, \<open>P2\<close> raises, \<open>P3\<close> returns 0, \<open>P4\<close> returns the string \<open>x\<close>, and \<open>C\<close>
  returns its inputs. \<open>orch_mix_ready\<close> is the state after the four predecessors have been
  dispatched.
\<close>

definition body_seven :: "string \<Rightarrow> string \<Rightarrow> pyval \<Rightarrow> Task prog" where
  "body_seven w t inputs = Return (PyInt 7)"

definition body_raise :: "string \<Rightarrow> string \<Rightarrow> pyval \<Rightarrow> Task prog" where
  "body_raise w t inputs = Raise (UserError ''boom'')"

definition body_x :: "string \<Rightarrow> string \<Rightarrow> pyval \<Rightarrow> Task prog" where
  "body_x w t inputs = Return (PyStr ''x'')"

definition wf_mix :: Workflow where
  "wf_mix =
     fst (add_task (plain_task ''C'') [''P1'', ''P2'', ''P3'', ''P4'']
       (fst (add_task (Task ''P4'' body_x default_constraints []) []
         (fst (add_task (Task ''P3'' body_zero default_constraints []) []
           (fst (add_task (Task ''P2'' body_raise default_constraints []) []
             (fst (add_task (Task ''P1'' body_seven default_constraints []) []
                (Workflow_init ''mix''))))))))))"

definition orch_mix :: Orchestrator where
  "orch_mix = fst (register_workflow wf_mix Orchestrator_init)"

definition orch_mix_ready :: Orchestrator where
  "orch_mix_ready =
     fst (spawn_parallel ''mix'' ''P4'' (PyList [])
       (fst (spawn_parallel ''mix'' ''P3'' (PyList [])
         (fst (spawn_parallel ''mix'' ''P2'' (PyList [])
           (fst (spawn_parallel ''mix'' ''P1'' (PyList []) orch_mix)))))))"

definition run_mix :: "(Orchestrator \<times> (exn + unit)) option" where
  "run_mix = run_workflow 10 ''mix'' Map.empty orch_mix"

section \<open>Vocabulary of the properties\<close>

text \<open>
  The status map after an abort of workflow \<open>w\<close> with task ids \<open>T\<close>: every entry of a task
  of \<open>w\<close> that is pending or running becomes failed, every other entry stays.
\<close>

definition aborted_status ::
  "string \<Rightarrow> string set \<Rightarrow> (string \<times> string \<rightharpoonup> status) \<Rightarrow> (string \<times> string \<rightharpoonup> status)" where
  "aborted_status w T m =
     (\<lambda>k. if fst k = w \<and> snd k \<in> T \<and> (m k = Some Pending \<or> m k = Some Running)
          then Some Failed else m k)"

text \<open>From \<open>m\<close> to \<open>m'\<close>, entries of workflow \<open>w\<close> at most went from pending or running to failed.\<close>

definition only_fails ::
  "string \<Rightarrow> (string \<times> string \<rightharpoonup> status) \<Rightarrow> (string \<times> string \<rightharpoonup> status) \<Rightarrow> bool" where
  "only_fails w m m' \<longleftrightarrow>
     (\<forall>k. m' k = m k \<or>
          (fst k = w \<and> (m k = Some Pending \<or> m k = Some Running) \<and> m' k = Some Failed))"

text \<open>
  The state \<open>s\<close> with the pairs \<open>es\<close> appended to both edge lists of workflow \<open>w\<close>, and
  to \<open>late_edges\<close> the ones of them that end in a task with an entry in the ready queue.
\<close>

definition with_edges :: "string \<Rightarrow> Workflow \<Rightarrow> (string \<times> string) list \<Rightarrow> Orchestrator \<Rightarrow> Orchestrator" where
  "with_edges w wfl es s =
     s\<lparr> workflows := (workflows s)
          (w \<mapsto> wfl\<lparr> edges := edges wfl @ es, visual_edges := visual_edges wfl @ es \<rparr>),
        late_edges := late_edges s @
          map (\<lambda>e. (w, fst e, snd e)) (filter (\<lambda>e. snd e \<in> set (waiting w s)) es) \<rparr>"

text \<open>
  What the loop over \<^verbatim>\<open>new_edges\<close> asks of one edge: an endpoint is the creator \<open>c\<close> or the
  new task \<open>n\<close>, both endpoints are tasks, and both edge checks return normally.
\<close>

definition edge_ok :: "string \<Rightarrow> string \<Rightarrow> (string \<rightharpoonup> Task) \<Rightarrow> string \<times> string \<Rightarrow> bool" where
  "edge_ok c n tm e \<longleftrightarrow>
     (fst e \<in> {c, n} \<or> snd e \<in> {c, n}) \<and>
     (\<exists>src_object dst_object.
        tm (fst e) = Some src_object \<and> tm (snd e) = Some dst_object \<and>
        check_edge_against_policy dst_object (TaskObj src_object) ''incoming'' = Inr () \<and>
        check_edge_against_policy src_object (TaskName (snd e)) ''outgoing'' = Inr ())"

text \<open>
  The workflow and the state right after creator \<open>c\<close>, whose spawn count was \<open>cnt\<close>, has
  inserted the new task \<open>nt\<close> (lines 217 to 226 of \<^verbatim>\<open>spawn_task\<close>).
\<close>

definition inserted_wfl :: "string \<Rightarrow> Task \<Rightarrow> bool \<Rightarrow> Workflow \<Rightarrow> Workflow" where
  "inserted_wfl c nt skip wfl =
     wfl\<lparr> tasks := tasks wfl @ [(task_id nt, nt)],
          visual_edges := visual_edges wfl @ (if skip then [] else [(c, task_id nt)]) \<rparr>"

definition inserted ::
  "string \<Rightarrow> string \<Rightarrow> Task \<Rightarrow> bool \<Rightarrow> Workflow \<Rightarrow> int \<Rightarrow> Orchestrator \<Rightarrow> Orchestrator" where
  "inserted w c nt skip wfl cnt s =
     s\<lparr> workflows := (workflows s)(w \<mapsto> inserted_wfl c nt skip wfl),
        task_status := (task_status s)((w, task_id nt) \<mapsto> Pending),
        spawn_counts := (spawn_counts s)((w, task_id nt) \<mapsto> 0, (w, c) \<mapsto> cnt + 1),
        execution_history := (execution_history s)
          ((w, task_id nt) \<mapsto> (case execution_history s (w, c) of None \<Rightarrow> 0 | Some k \<Rightarrow> k) + 1) \<rparr>"

text \<open>
  The test of lines 252 to 254: input data was given and no edge of \<open>es\<close> ends in the task
  \<open>n\<close>.
\<close>

definition enqueues_new_root :: "pyval \<Rightarrow> string \<Rightarrow> (string \<times> string) list \<Rightarrow> bool" where
  "enqueues_new_root input_data n es \<longleftrightarrow>
     input_data \<noteq> PyNone \<and> \<not> list_ex (\<lambda>(src, dst). dst = n) es"

text \<open>
  What lines 194 to 215 of \<^verbatim>\<open>spawn_task\<close> ask before the new task \<open>nt\<close> is inserted: the
  creator \<open>c\<close> is a task of the workflow, its spawn count is below its quota if it has one,
  both node checks return normally, and the id of \<open>nt\<close> is new.
\<close>

definition spawn_admitted :: "string \<Rightarrow> string \<Rightarrow> Task \<Rightarrow> Workflow \<Rightarrow> Task \<Rightarrow> Orchestrator \<Rightarrow> bool" where
  "spawn_admitted w c nt wfl cobj s \<longleftrightarrow>
     workflows s w = Some wfl \<and> map_of (tasks wfl) c = Some cobj \<and>
     (\<forall>k. max_spawn_count (constraints cobj) = Some k \<longrightarrow>
          (\<exists>n. spawn_counts s (w, c) = Some n \<and> n < k)) \<and>
     check_node_against_policy cobj nt ''next'' = Inr () \<and>
     check_node_against_policy cobj nt ''previous'' = Inr () \<and>
     map_of (tasks wfl) (task_id nt) = None"

text \<open>The state after a spawn that returned normally.\<close>

definition after_spawn ::
  "string \<Rightarrow> string \<Rightarrow> Task \<Rightarrow> (string \<times> string) list \<Rightarrow> pyval \<Rightarrow> bool \<Rightarrow> Workflow \<Rightarrow> int
   \<Rightarrow> Orchestrator \<Rightarrow> Orchestrator" where
  "after_spawn w c nt es inp skip wfl cnt s =
     (let s1 = with_edges w (inserted_wfl c nt skip wfl) es (inserted w c nt skip wfl cnt s) in
      s1\<lparr> ready_queue :=
             (if enqueues_new_root inp (task_id nt) (edges wfl @ es)
              then (ready_queue s)(w \<mapsto> (case ready_queue s w of None \<Rightarrow> [] | Some q \<Rightarrow> q)
                                          @ [(task_id nt, inp)])
              else ready_queue s),
          spawned := spawned s @ [(w, c)] \<rparr>)"

text \<open>
  The recorded outputs of the tasks \<open>ps\<close>, in the order of \<open>ps\<close>, keeping the ones Python
  takes for true.
\<close>

definition truthy_outputs :: "string \<Rightarrow> string list \<Rightarrow> Orchestrator \<Rightarrow> pyval list" where
  "truthy_outputs w ps s =
     concat (map (\<lambda>p. case task_outputs s (w, p) of
                         None \<Rightarrow> []
                       | Some v \<Rightarrow> if truthy v then [v] else []) ps)"

text \<open>
  The input assembly as claim C8 words it: the outputs of the predecessors in order,
  omitting the ones that are absent or empty.
\<close>

definition spec_assembled_inputs :: "string \<Rightarrow> string list \<Rightarrow> Orchestrator \<Rightarrow> pyval list" where
  "spec_assembled_inputs w ps s =
     concat (map (\<lambda>p. case task_outputs s (w, p) of
                         None \<Rightarrow> []
                       | Some v \<Rightarrow> if v = PyNone \<or> v = PyStr [] \<or> v = PyList [] then [] else [v]) ps)"

text \<open>A task is terminal when its status is done or failed.\<close>

definition terminal :: "string \<Rightarrow> Orchestrator \<Rightarrow> string \<Rightarrow> bool" where
  "terminal w s t \<longleftrightarrow> task_status s (w, t) = Some Done \<or> task_status s (w, t) = Some Failed"

text \<open>What a discovery pass takes for ready: pending, with every predecessor terminal.\<close>

definition ready :: "string \<Rightarrow> (string \<times> string) list \<Rightarrow> Orchestrator \<Rightarrow> string \<Rightarrow> bool" where
  "ready w es s t \<longleftrightarrow>
     task_status s (w, t) = Some Pending \<and> (\<forall>p \<in> set (preds_of es t). terminal w s p)"

text \<open>
  What every call of \<open>spawn_task\<close> leaves as it is, however it ends: the history of
  invocations and the outputs stay; a task of a workflow stays one, with the same object;
  a status stays, or goes from pending or running to failed, or is the one of the new
  task; a spawn count stays, or is the one of the new task, or is the creator's, raised by
  one from a value below its quota.
\<close>

definition spawn_frame :: "string \<Rightarrow> string \<Rightarrow> Task \<Rightarrow> Orchestrator \<Rightarrow> Orchestrator \<Rightarrow> bool" where
  "spawn_frame w c nt s s' \<longleftrightarrow>
     invocations s' = invocations s \<and> task_outputs s' = task_outputs s \<and>
     (\<forall>w2 wfl. workflows s w2 = Some wfl \<longrightarrow>
        (\<exists>wfl'. workflows s' w2 = Some wfl' \<and>
           (\<forall>t obj. map_of (tasks wfl) t = Some obj \<longrightarrow> map_of (tasks wfl') t = Some obj))) \<and>
     (\<forall>k. task_status s' k = task_status s k
          \<or> ((task_status s k = Some Pending \<or> task_status s k = Some Running)
              \<and> task_status s' k = Some Failed)
          \<or> (\<exists>wfl. k = (w, task_id nt) \<and> workflows s w = Some wfl
                    \<and> map_of (tasks wfl) (task_id nt) = None)) \<and>
     (\<forall>k. spawn_counts s' k = spawn_counts s k
          \<or> (\<exists>wfl. k = (w, task_id nt) \<and> workflows s w = Some wfl
                    \<and> map_of (tasks wfl) (task_id nt) = None \<and> spawn_counts s' k = Some 0)
          \<or> (\<exists>wfl cobj cnt. k = (w, c) \<and> workflows s w = Some wfl
                    \<and> map_of (tasks wfl) c = Some cobj \<and> spawn_counts s k = Some cnt
                    \<and> spawn_counts s' k = Some (cnt + 1)
                    \<and> (\<forall>q. max_spawn_count (constraints cobj) = Some q \<longrightarrow> cnt < q)))"

text \<open>
  A property of the orchestrator state is stable over runs when the two methods a task body can
  call keep it, and so does every assignment the scheduler makes itself: to the queue, the
  execution steps, the picture counter, the loop flag and the inputs, the status failed
  for any task, the step of dispatch, in which a pending task of the workflow goes
  to running and its body is called, and the history \<open>early\<close>.
\<close>

definition run_stable :: "(Orchestrator \<Rightarrow> bool) \<Rightarrow> bool" where
  "run_stable P \<longleftrightarrow>
     (\<forall>s w c nt es inp skip. P s \<longrightarrow> P (fst (spawn_task w c nt es inp skip s))) \<and>
     (\<forall>s w t v. P s \<longrightarrow> P (fst (complete_task w t v s))) \<and>
     (\<forall>s q. P s \<longrightarrow> P (s\<lparr> ready_queue := q \<rparr>)) \<and>
     (\<forall>s h. P s \<longrightarrow> P (s\<lparr> execution_history := h \<rparr>)) \<and>
     (\<forall>s v. P s \<longrightarrow> P (s\<lparr> visualization_counter := v \<rparr>)) \<and>
     (\<forall>s r. P s \<longrightarrow> P (s\<lparr> running_loops := r \<rparr>)) \<and>
     (\<forall>s i. P s \<longrightarrow> P (s\<lparr> task_inputs := i \<rparr>)) \<and>
     (\<forall>s k. P s \<longrightarrow> P (s\<lparr> task_status := (task_status s)(k \<mapsto> Failed) \<rparr>)) \<and>
     (\<forall>s w t wfl obj. P s \<longrightarrow> task_status s (w, t) = Some Pending \<longrightarrow>
         workflows s w = Some wfl \<longrightarrow> map_of (tasks wfl) t = Some obj \<longrightarrow>
         P (s\<lparr> task_status := (task_status s)((w, t) \<mapsto> Running),
               invocations := invocations s @ [(w, t)] \<rparr>)) \<and>
     (\<forall>s e. P s \<longrightarrow> P (s\<lparr> early := e \<rparr>))"

text \<open>
  The invariant behind "at most once": no key is twice in the history of invocations,
  and every key in it is a task of its workflow whose status is not pending.
\<close>

definition invoked_inv :: "Orchestrator \<Rightarrow> bool" where
  "invoked_inv s \<longleftrightarrow>
     distinct (invocations s) \<and>
     (\<forall>k \<in> set (invocations s).
        (\<exists>wfl obj. workflows s (fst k) = Some wfl \<and> map_of (tasks wfl) (snd k) = Some obj) \<and>
        (task_status s k = Some Running \<or> task_status s k = Some Done
         \<or> task_status s k = Some Failed))"

text \<open>
  The invariant behind the spawn quota: no spawn count is negative, and every creator in
  the history of spawns is a task of its workflow whose spawn count is at least the number
  of its entries in the history and at most its quota, if it has one.
\<close>

definition quota_inv :: "Orchestrator \<Rightarrow> bool" where
  "quota_inv s \<longleftrightarrow>
     (\<forall>k cnt. spawn_counts s k = Some cnt \<longrightarrow> 0 \<le> cnt) \<and>
     (\<forall>k \<in> set (spawned s).
        \<exists>wfl obj cnt. workflows s (fst k) = Some wfl \<and> map_of (tasks wfl) (snd k) = Some obj \<and>
           spawn_counts s k = Some cnt \<and> int (count_list (spawned s) k) \<le> cnt \<and>
           (\<forall>q. max_spawn_count (constraints obj) = Some q \<longrightarrow> cnt \<le> q))"

text \<open>
  The states an orchestrator can be in: those that its public methods produce from a new
  orchestrator.
\<close>

inductive reachable :: "Orchestrator \<Rightarrow> bool" where
  reachable_init: "reachable Orchestrator_init"
| reachable_register: "reachable s \<Longrightarrow> reachable (fst (register_workflow wfl s))"
| reachable_run:
    "reachable s \<Longrightarrow> run_workflow fuel w input_data s = Some (s', r) \<Longrightarrow> reachable s'"
| reachable_spawn: "reachable s \<Longrightarrow> reachable (fst (spawn_task w c nt es inp skip s))"
| reachable_complete: "reachable s \<Longrightarrow> reachable (fst (complete_task w t v s))"

text \<open>
  What \<^verbatim>\<open>fail_workflow\<close> makes of the state \<open>s\<close> and raises, when every dictionary entry it
  reads is there: the ready queue of \<open>w\<close> is emptied, every task of \<open>w\<close> that is pending or
  running becomes failed, the loop flag of \<open>w\<close> is cleared, and nothing else changes.
\<close>

definition aborted :: "string \<Rightarrow> string \<Rightarrow> Orchestrator \<Rightarrow> Orchestrator \<times> (exn + unit)" where
  "aborted w msg s =
     (s\<lparr> ready_queue := (ready_queue s)(w \<mapsto> []),
         task_status := aborted_status w
           (case workflows s w of None \<Rightarrow> {} | Some wfl \<Rightarrow> fst ` set (tasks wfl)) (task_status s),
         running_loops := (running_loops s)(w \<mapsto> False) \<rparr>,
      Inl (RuntimeError (abort_message w msg)))"

text \<open>
  The state in the loop over \<^verbatim>\<open>new_edges\<close> after the new task \<open>nt\<close> has been inserted and
  the edges \<open>es1\<close> have been appended.
\<close>

definition half_spawned ::
  "string \<Rightarrow> string \<Rightarrow> Task \<Rightarrow> bool \<Rightarrow> Workflow \<Rightarrow> int \<Rightarrow> (string \<times> string) list \<Rightarrow> Orchestrator
   \<Rightarrow> Orchestrator" where
  "half_spawned w c nt skip wfl cnt es1 s =
     with_edges w (inserted_wfl c nt skip wfl) es1 (inserted w c nt skip wfl cnt s)"

text \<open>
  What \<open>register_workflow\<close> provides for a workflow, and every later call keeps: the
  workflow has a ready queue, and each of its tasks has a status and a spawn count.
\<close>

definition registered :: "string \<Rightarrow> Workflow \<Rightarrow> Orchestrator \<Rightarrow> bool" where
  "registered w wfl s \<longleftrightarrow>
     workflows s w = Some wfl \<and> ready_queue s w \<noteq> None \<and>
     (\<forall>t \<in> fst ` set (tasks wfl). task_status s (w, t) \<noteq> None \<and> spawn_counts s (w, t) \<noteq> None)"

text \<open>
  What a discovery pass of \<open>run_helper\<close> appends to the ready queue in the state \<open>s\<close>: an
  entry for each ready task of the workflow, in the order of the task dict, with the
  outputs of its predecessors that Python takes for true.
\<close>

definition discovered :: "string \<Rightarrow> Workflow \<Rightarrow> Orchestrator \<Rightarrow> (string \<times> pyval) list" where
  "discovered w wfl s =
     map (\<lambda>t. (t, PyList (truthy_outputs w (preds_of (edges wfl) t) s)))
       (filter (ready w (edges wfl) s) (map fst (tasks wfl)))"

text \<open>
  The state in which \<open>task_runner\<close> calls the body of the pending task \<open>t\<close> when it is
  dispatched with \<open>inputs\<close>: its status is running, and \<open>inputs\<close> is recorded for it.
\<close>

definition dispatched :: "string \<Rightarrow> string \<Rightarrow> pyval \<Rightarrow> Workflow \<Rightarrow> Orchestrator \<Rightarrow> Orchestrator" where
  "dispatched w t inputs wfl s =
     (let s0 = s\<lparr> task_status := (task_status s)((w, t) \<mapsto> Running),
                   task_inputs := (task_inputs s)((w, t) \<mapsto> inputs) \<rparr>
      in s0\<lparr> invocations := invocations s0 @ [(w, t)],
             early := early s0 @
               map (\<lambda>p. (w, p, t))
                 (filter (\<lambda>p. task_status s0 (w, p) \<noteq> Some Done \<and>
                              task_status s0 (w, p) \<noteq> Some Failed)
                    (preds_of (edges wfl) t)) \<rparr>)"

section \<open>Constraint records are validated at construction\<close>

lemma validate_max_spawn_count_cases:
  "validate_max_spawn_count c =
     (if (\<exists>k. max_spawn_count c = Some k \<and> k < 0)
      then Inl (ValueError ''max_spawn_count must be >= 0'') else Inr ())"
  by (auto simp: validate_max_spawn_count_def split: option.splits)

lemma validate_policy_values_ok:
  "(validate_policy_values c = Inr ()) \<longleftrightarrow>
     valid_next_nodes_policy c \<in> set valid_policies \<and>
     valid_previous_nodes_policy c \<in> set valid_policies \<and>
     valid_incoming_edges_policy c \<in> set valid_policies \<and>
     valid_outgoing_edges_policy c \<in> set valid_policies"
  by (simp add: validate_policy_values_def)

lemma validate_policy_values_err:
  "validate_policy_values c \<noteq> Inr () \<Longrightarrow> \<exists>m. validate_policy_values c = Inl (ValueError m)"
  by (simp add: validate_policy_values_def split: if_splits)

lemma validate_policy_nodes_ok:
  "(validate_policy_nodes c = Inr ()) \<longleftrightarrow>
     \<not> (valid_next_nodes_policy c = ''allow_none'' \<and> valid_next_nodes c \<noteq> []) \<and>
     \<not> (valid_next_nodes_policy c = ''custom'' \<and> valid_next_nodes c = []) \<and>
     \<not> (valid_previous_nodes_policy c = ''allow_none'' \<and> valid_previous_nodes c \<noteq> []) \<and>
     \<not> (valid_previous_nodes_policy c = ''custom'' \<and> valid_previous_nodes c = []) \<and>
     \<not> (valid_incoming_edges_policy c = ''allow_none'' \<and> valid_incoming_edges c \<noteq> []) \<and>
     \<not> (valid_incoming_edges_policy c = ''custom'' \<and> valid_incoming_edges c = []) \<and>
     \<not> (valid_outgoing_edges_policy c = ''allow_none'' \<and> valid_outgoing_edges c \<noteq> []) \<and>
     \<not> (valid_outgoing_edges_policy c = ''custom'' \<and> valid_outgoing_edges c = [])"
  unfolding validate_policy_nodes_def
  by (simp split: if_splits)

lemma validate_policy_nodes_err:
  "validate_policy_nodes c \<noteq> Inr () \<Longrightarrow> \<exists>m. validate_policy_nodes c = Inl (ValueError m)"
  unfolding validate_policy_nodes_def by (simp split: if_splits)

lemma validate_ok_iff:
  "(validate c = Inr ()) \<longleftrightarrow>
     \<not> (\<exists>k. max_spawn_count c = Some k \<and> k < 0) \<and>
     validate_policy_values c = Inr () \<and> validate_policy_nodes c = Inr ()"
  by (auto simp: validate_def validate_max_spawn_count_cases split: sum.splits)

lemma validate_err:
  assumes "validate c \<noteq> Inr ()"
  shows "\<exists>m. validate c = Inl (ValueError m)"
proof (cases "\<exists>k. max_spawn_count c = Some k \<and> k < 0")
  case True
  then show ?thesis
    by (simp add: validate_def validate_max_spawn_count_cases)
next
  case neg: False
  show ?thesis
  proof (cases "validate_policy_values c = Inr ()")
    case False
    then obtain m where "validate_policy_values c = Inl (ValueError m)"
      using validate_policy_values_err by blast
    then show ?thesis
      using neg by (simp add: validate_def validate_max_spawn_count_cases)
  next
    case True
    then have "validate_policy_nodes c \<noteq> Inr ()"
      using assms neg validate_ok_iff by blast
    then obtain m where "validate_policy_nodes c = Inl (ValueError m)"
      using validate_policy_nodes_err by blast
    then show ?thesis
      using neg True by (simp add: validate_def validate_max_spawn_count_cases)
  qed
qed

text \<open>
  Claim C9. Constructing a constraint record raises a \<^verbatim>\<open>ValueError\<close>, and yields no
  record, whenever \<^verbatim>\<open>max_spawn_count\<close> is present and negative, whenever one of the four
  policies is not one of \<^verbatim>\<open>allow_all\<close>, \<^verbatim>\<open>allow_none\<close>, \<^verbatim>\<open>custom\<close>, whenever a
  policy is \<^verbatim>\<open>allow_none\<close> with a non-empty list, and whenever a policy is
  \<^verbatim>\<open>custom\<close> with an empty list; in every other case the record with the nine given
  fields is constructed.
\<close>

theorem constraints_construction:
  "if (\<exists>k. msc = Some k \<and> k < 0)
      \<or> nnp \<notin> {''allow_all'', ''allow_none'', ''custom''}
      \<or> pnp \<notin> {''allow_all'', ''allow_none'', ''custom''}
      \<or> iep \<notin> {''allow_all'', ''allow_none'', ''custom''}
      \<or> oep \<notin> {''allow_all'', ''allow_none'', ''custom''}
      \<or> (nnp = ''allow_none'' \<and> nn \<noteq> []) \<or> (nnp = ''custom'' \<and> nn = [])
      \<or> (pnp = ''allow_none'' \<and> pn \<noteq> []) \<or> (pnp = ''custom'' \<and> pn = [])
      \<or> (iep = ''allow_none'' \<and> ie \<noteq> []) \<or> (iep = ''custom'' \<and> ie = [])
      \<or> (oep = ''allow_none'' \<and> oe \<noteq> []) \<or> (oep = ''custom'' \<and> oe = [])
   then \<exists>m. TaskConstraints_init msc nnp nn pnp pn iep ie oep oe = Inl (ValueError m)
   else TaskConstraints_init msc nnp nn pnp pn iep ie oep oe =
          Inr \<lparr> max_spawn_count = msc,
                valid_next_nodes_policy = nnp, valid_next_nodes = nn,
                valid_previous_nodes_policy = pnp, valid_previous_nodes = pn,
                valid_incoming_edges_policy = iep, valid_incoming_edges = ie,
                valid_outgoing_edges_policy = oep, valid_outgoing_edges = oe \<rparr>"
  (is "if ?bad then ?fails else ?constructs")
proof -
  define c where "c = \<lparr> max_spawn_count = msc,
                valid_next_nodes_policy = nnp, valid_next_nodes = nn,
                valid_previous_nodes_policy = pnp, valid_previous_nodes = pn,
                valid_incoming_edges_policy = iep, valid_incoming_edges = ie,
                valid_outgoing_edges_policy = oep, valid_outgoing_edges = oe \<rparr>"
  have init: "TaskConstraints_init msc nnp nn pnp pn iep ie oep oe =
                (case validate c of Inl e \<Rightarrow> Inl e | Inr _ \<Rightarrow> Inr c)"
    unfolding TaskConstraints_init_def Let_def c_def by (rule refl)
  have pvals: "(validate_policy_values c = Inr ()) \<longleftrightarrow>
      nnp \<in> {''allow_all'', ''allow_none'', ''custom''} \<and>
      pnp \<in> {''allow_all'', ''allow_none'', ''custom''} \<and>
      iep \<in> {''allow_all'', ''allow_none'', ''custom''} \<and>
      oep \<in> {''allow_all'', ''allow_none'', ''custom''}"
    unfolding validate_policy_values_ok by (simp add: c_def valid_policies_def)
  have nodes: "(validate_policy_nodes c = Inr ()) \<longleftrightarrow>
      \<not> (nnp = ''allow_none'' \<and> nn \<noteq> []) \<and> \<not> (nnp = ''custom'' \<and> nn = []) \<and>
      \<not> (pnp = ''allow_none'' \<and> pn \<noteq> []) \<and> \<not> (pnp = ''custom'' \<and> pn = []) \<and>
      \<not> (iep = ''allow_none'' \<and> ie \<noteq> []) \<and> \<not> (iep = ''custom'' \<and> ie = []) \<and>
      \<not> (oep = ''allow_none'' \<and> oe \<noteq> []) \<and> \<not> (oep = ''custom'' \<and> oe = [])"
    unfolding validate_policy_nodes_ok by (simp add: c_def)
  have msc: "max_spawn_count c = msc" by (simp add: c_def)
  have bad: "?bad \<longleftrightarrow> validate c \<noteq> Inr ()"
    unfolding validate_ok_iff pvals nodes msc by argo
  show ?thesis
  proof (cases "validate c = Inr ()")
    case True
    then have "?constructs" using init by (simp add: c_def)
    then show ?thesis using bad True by presburger
  next
    case False
    then obtain m where "validate c = Inl (ValueError m)"
      using validate_err by blast
    then have "?fails" using init by simp
    then show ?thesis using bad False by presburger
  qed
qed

theorem constraints_construction_witness:
  "(\<exists>m. TaskConstraints_init (Some (- 1)) ''allow_all'' [] ''allow_all'' [] ''allow_all'' []
            ''allow_all'' [] = Inl (ValueError m))
   \<and> (\<exists>m. TaskConstraints_init None ''custom'' [] ''allow_all'' [] ''allow_all'' []
            ''allow_all'' [] = Inl (ValueError m))
   \<and> TaskConstraints_init (Some 1) ''custom'' [''BranchA''] ''allow_all'' [] ''allow_all'' []
            ''custom'' [(''BranchTask'', ''BranchA'')]
       = Inr \<lparr> max_spawn_count = Some 1,
               valid_next_nodes_policy = ''custom'', valid_next_nodes = [''BranchA''],
               valid_previous_nodes_policy = ''allow_all'', valid_previous_nodes = [],
               valid_incoming_edges_policy = ''allow_all'', valid_incoming_edges = [],
               valid_outgoing_edges_policy = ''custom'',
               valid_outgoing_edges = [(''BranchTask'', ''BranchA'')] \<rparr>"
  using constraints_construction [where msc = "Some (- 1)" and nnp = "''allow_all''" and nn = "[]"
          and pnp = "''allow_all''" and pn = "[]" and iep = "''allow_all''" and ie = "[]"
          and oep = "''allow_all''" and oe = "[]"]
        constraints_construction [where msc = None and nnp = "''custom''" and nn = "[]"
          and pnp = "''allow_all''" and pn = "[]" and iep = "''allow_all''" and ie = "[]"
          and oep = "''allow_all''" and oe = "[]"]
        constraints_construction [where msc = "Some 1" and nnp = "''custom''"
          and nn = "[''BranchA'']" and pnp = "''allow_all''" and pn = "[]"
          and iep = "''allow_all''" and ie = "[]" and oep = "''custom''"
          and oe = "[(''BranchTask'', ''BranchA'')]"]
  by simp

section \<open>The edge check under a custom policy\<close>

lemma check_edge_custom_admits:
  assumes "direction = ''outgoing'' \<longrightarrow> valid_outgoing_edges_policy (constraints taskA) = ''custom''"
      and "direction \<noteq> ''outgoing'' \<longrightarrow> valid_incoming_edges_policy (constraints taskA) = ''custom''"
  shows "check_edge_against_policy taskA taskB direction = Inr ()"
  using assms by (simp add: check_edge_against_policy_def)

text \<open>
  Claim C2 says that under a \<^verbatim>\<open>custom\<close> policy the edge check admits \<open>A \<rightarrow> B\<close> only if
  the pair \<open>(A, B)\<close> is in the list of valid edges, and raises otherwise. The code compares
  the policy, which is \<^verbatim>\<open>'custom'\<close> there, with the direction names, so neither
  membership test is ever reached: the edge \<open>(A, B)\<close> is admitted in the outgoing direction
  although the valid outgoing edges of \<open>A\<close> are \<open>[(A, C)]\<close>, and in the incoming direction
  although the valid incoming edges of \<open>B\<close> are \<open>[(C, B)]\<close>.
\<close>

theorem check_edge_custom_unlisted_edge_admitted:
  "(''A'', ''B'') \<notin> set (valid_outgoing_edges (constraints task_A_custom_out))
   \<and> valid_outgoing_edges_policy (constraints task_A_custom_out) = ''custom''
   \<and> check_edge_against_policy task_A_custom_out (TaskObj (plain_task ''B'')) ''outgoing'' = Inr ()
   \<and> (''A'', ''B'') \<notin> set (valid_incoming_edges (constraints task_B_custom_in))
   \<and> valid_incoming_edges_policy (constraints task_B_custom_in) = ''custom''
   \<and> check_edge_against_policy task_B_custom_in (TaskObj (plain_task ''A'')) ''incoming'' = Inr ()"
  by (simp add: check_edge_against_policy_def task_A_custom_out_def task_B_custom_in_def
        default_constraints_def)

section \<open>Aborting a workflow\<close>

lemma fail_tasks_frame:
  "fail_tasks w ts s = (s', r) \<Longrightarrow>
   workflows s' = workflows s \<and> ready_queue s' = ready_queue s \<and>
   task_inputs s' = task_inputs s \<and> task_outputs s' = task_outputs s \<and>
   spawn_counts s' = spawn_counts s \<and> running_loops s' = running_loops s \<and>
   run_counter s' = run_counter s \<and> execution_history s' = execution_history s \<and>
   visualization_counter s' = visualization_counter s \<and>
   invocations s' = invocations s \<and> spawned s' = spawned s"
proof (induction ts arbitrary: s)
  case Nil
  then show ?case by simp
next
  case (Cons t ts)
  show ?case
  proof (cases "task_status s (w, t)")
    case None
    with Cons.prems show ?thesis by simp
  next
    case (Some st)
    with Cons.prems have "fail_tasks w ts (if st = Pending \<or> st = Running
               then s\<lparr> task_status := (task_status s)((w, t) \<mapsto> Failed) \<rparr> else s) = (s', r)"
      by simp
    from Cons.IH [OF this] show ?thesis by (simp split: if_splits)
  qed
qed

lemma aborted_status_Nil [simp]: "aborted_status w {} m = m"
  by (auto simp: aborted_status_def)

lemma aborted_status_step:
  "m (w, t) = Some st \<Longrightarrow>
   aborted_status w (set ts) (if st = Pending \<or> st = Running then m((w, t) \<mapsto> Failed) else m)
     = aborted_status w (set (t # ts)) m"
  by (rule ext) (auto simp: aborted_status_def)

lemma fail_tasks_ok:
  "fail_tasks w ts s = (s', Inr ()) \<Longrightarrow>
   s' = s\<lparr> task_status := aborted_status w (set ts) (task_status s) \<rparr>
   \<and> (\<forall>t \<in> set ts. task_status s (w, t) \<noteq> None)"
proof (induction ts arbitrary: s)
  case Nil
  then show ?case by simp
next
  case (Cons t ts)
  from Cons.prems obtain st where st: "task_status s (w, t) = Some st"
    by (auto split: option.splits)
  let ?s1 = "if st = Pending \<or> st = Running
             then s\<lparr> task_status := (task_status s)((w, t) \<mapsto> Failed) \<rparr> else s"
  from Cons.prems st have "fail_tasks w ts ?s1 = (s', Inr ())" by simp
  from Cons.IH [OF this] have
    s': "s' = ?s1\<lparr> task_status := aborted_status w (set ts) (task_status ?s1) \<rparr>"
    and defd: "\<forall>t \<in> set ts. task_status ?s1 (w, t) \<noteq> None" by blast+
  have "task_status ?s1 = (if st = Pending \<or> st = Running then (task_status s)((w, t) \<mapsto> Failed) else task_status s)"
    by simp
  then have "aborted_status w (set ts) (task_status ?s1) = aborted_status w (set (t # ts)) (task_status s)"
    using aborted_status_step [where m = "task_status s" and w = w and t = t and st = st and ts = ts] st by simp
  with s' have "s' = s\<lparr> task_status := aborted_status w (set (t # ts)) (task_status s) \<rparr>"
    by (cases "st = Pending \<or> st = Running") simp_all
  moreover have "\<forall>u \<in> set (t # ts). task_status s (w, u) \<noteq> None"
    using defd st by (auto split: if_splits)
  ultimately show ?case by blast
qed

lemma fail_tasks_total:
  "\<forall>t \<in> set ts. task_status s (w, t) \<noteq> None \<Longrightarrow> snd (fail_tasks w ts s) = Inr ()"
  by (induction ts arbitrary: s) (auto split: option.splits)

lemma fail_tasks_result:
  "fail_tasks w ts s = (s', r) \<Longrightarrow> r = Inr () \<or> r = Inl KeyError"
  by (induction ts arbitrary: s) (auto split: option.splits if_splits)

text \<open>Statuses only ever move from pending or running to failed.\<close>

lemma fail_tasks_status:
  "fail_tasks w ts s = (s', r) \<Longrightarrow>
   task_status s' k = task_status s k \<or>
   ((task_status s k = Some Pending \<or> task_status s k = Some Running) \<and> task_status s' k = Some Failed
     \<and> fst k = w \<and> snd k \<in> set ts)"
proof (induction ts arbitrary: s)
  case Nil
  then show ?case by simp
next
  case (Cons t ts)
  show ?case
  proof (cases "task_status s (w, t)")
    case None
    with Cons.prems show ?thesis by simp
  next
    case (Some st)
    let ?s1 = "if st = Pending \<or> st = Running
               then s\<lparr> task_status := (task_status s)((w, t) \<mapsto> Failed) \<rparr> else s"
    from Cons.prems Some have "fail_tasks w ts ?s1 = (s', r)" by simp
    from Cons.IH [OF this] show ?thesis
      using Some by (auto split: if_splits)
  qed
qed

lemma only_fails_refl [simp]: "only_fails w m m"
  by (simp add: only_fails_def)

lemma only_fails_trans: "only_fails w m1 m2 \<Longrightarrow> only_fails w m2 m3 \<Longrightarrow> only_fails w m1 m3"
  unfolding only_fails_def by metis

lemma only_fails_aborted [simp]: "only_fails w m (aborted_status w T m)"
  by (auto simp: only_fails_def aborted_status_def)

lemma fail_tasks_only_fails:
  "fail_tasks w ts s = (s', r) \<Longrightarrow> only_fails w (task_status s) (task_status s')"
  unfolding only_fails_def using fail_tasks_status by blast

lemma fail_workflow_result:
  "fail_workflow w m s = (s', r) \<Longrightarrow> r = Inl KeyError \<or> r = Inl (RuntimeError (abort_message w m))"
  by (auto simp: fail_workflow_def Let_def split: option.splits prod.splits sum.splits
           dest: fail_tasks_result)

lemma fail_workflow_frame:
  assumes "fail_workflow w m s = (s', r)"
  shows "workflows s' = workflows s \<and>
   task_inputs s' = task_inputs s \<and> task_outputs s' = task_outputs s \<and>
   spawn_counts s' = spawn_counts s \<and>
   run_counter s' = run_counter s \<and> execution_history s' = execution_history s \<and>
   visualization_counter s' = visualization_counter s \<and>
   invocations s' = invocations s \<and> spawned s' = spawned s \<and>
   only_fails w (task_status s) (task_status s')"
proof (cases "ready_queue s w")
  case None
  with assms show ?thesis by (simp add: fail_workflow_def)
next
  case (Some q)
  let ?s1 = "s\<lparr> ready_queue := (ready_queue s)(w \<mapsto> []) \<rparr>"
  show ?thesis
  proof (cases "workflows s w")
    case None
    with assms Some show ?thesis by (auto simp: fail_workflow_def)
  next
    case wfl: (Some wfl)
    obtain s2 r2 where ft: "fail_tasks w (map fst (tasks wfl)) ?s1 = (s2, r2)"
      by (cases "fail_tasks w (map fst (tasks wfl)) ?s1") auto
    from fail_tasks_frame [OF ft] fail_tasks_only_fails [OF ft]
    have fr: "workflows s2 = workflows s \<and>
       task_inputs s2 = task_inputs s \<and> task_outputs s2 = task_outputs s \<and>
       spawn_counts s2 = spawn_counts s \<and>
       run_counter s2 = run_counter s \<and> execution_history s2 = execution_history s \<and>
       visualization_counter s2 = visualization_counter s \<and>
       invocations s2 = invocations s \<and> spawned s2 = spawned s \<and>
       only_fails w (task_status s) (task_status s2)"
      by simp
    from assms Some wfl ft have "s' = s2 \<or> s' = s2\<lparr> running_loops := (running_loops s2)(w \<mapsto> False) \<rparr>"
      by (auto simp: fail_workflow_def Let_def split: sum.splits)
    with fr show ?thesis by auto
  qed
qed

lemma fail_workflow_abort:
  assumes "fail_workflow w m s = (s', Inl (RuntimeError x))"
  shows "\<exists>wfl. workflows s w = Some wfl \<and> ready_queue s w \<noteq> None \<and>
           (\<forall>t \<in> fst ` set (tasks wfl). task_status s (w, t) \<noteq> None) \<and>
           x = abort_message w m \<and>
           s' = s\<lparr> ready_queue := (ready_queue s)(w \<mapsto> []),
                   task_status := aborted_status w (fst ` set (tasks wfl)) (task_status s),
                   running_loops := (running_loops s)(w \<mapsto> False) \<rparr>"
proof -
  from assms obtain q where q: "ready_queue s w = Some q"
    by (auto simp: fail_workflow_def split: option.splits)
  let ?s1 = "s\<lparr> ready_queue := (ready_queue s)(w \<mapsto> []) \<rparr>"
  from assms q obtain wfl where wfl: "workflows s w = Some wfl"
    by (auto simp: fail_workflow_def Let_def split: option.splits)
  obtain s2 r2 where ft: "fail_tasks w (map fst (tasks wfl)) ?s1 = (s2, r2)"
    by (cases "fail_tasks w (map fst (tasks wfl)) ?s1") auto
  from assms q wfl ft fail_tasks_result [OF ft] have r2: "r2 = Inr ()"
    and s': "s' = s2\<lparr> running_loops := (running_loops s2)(w \<mapsto> False) \<rparr>"
    and x: "x = abort_message w m"
    by (auto simp: fail_workflow_def Let_def split: sum.splits)
  from fail_tasks_ok [OF ft [unfolded r2]]
  have s2: "s2 = ?s1\<lparr> task_status := aborted_status w (set (map fst (tasks wfl))) (task_status ?s1) \<rparr>"
    and defd: "\<forall>t \<in> set (map fst (tasks wfl)). task_status ?s1 (w, t) \<noteq> None"
    by blast+
  show ?thesis
    using wfl q x s' s2 defd by (intro exI [of _ wfl]) simp
qed

lemma fail_workflow_total:
  assumes "workflows s w = Some wfl" and "ready_queue s w = Some q"
      and "\<forall>t \<in> fst ` set (tasks wfl). task_status s (w, t) \<noteq> None"
  shows "snd (fail_workflow w m s) = Inl (RuntimeError (abort_message w m))"
proof -
  let ?s1 = "s\<lparr> ready_queue := (ready_queue s)(w \<mapsto> []) \<rparr>"
  have "snd (fail_tasks w (map fst (tasks wfl)) ?s1) = Inr ()"
    using assms(3) by (intro fail_tasks_total) simp
  then show ?thesis
    using assms(1,2) by (auto simp: fail_workflow_def Let_def split: prod.splits sum.splits)
qed

lemma fail_workflow_not_ok: "fail_workflow w m s \<noteq> (s', Inr x)"
  using fail_workflow_result [of w m s s' "Inr x"] by auto

lemma check_node_result:
  "check_node_against_policy a b d = Inr () \<or>
   (\<exists>m. check_node_against_policy a b d = Inl (RuntimeError m))"
  by (simp add: check_node_against_policy_def Let_def)

lemma check_edge_result:
  "check_edge_against_policy a b d = Inr () \<or>
   check_edge_against_policy a b d =
     Inl (RuntimeError (''Task '' @ task_id a @ '' cannot create '' @ d @ '' edges.''))"
  by (simp add: check_edge_against_policy_def Let_def)

lemma check_edge_rejects_iff:
  "check_edge_against_policy a b d \<noteq> Inr () \<longleftrightarrow>
     (if d = ''outgoing'' then valid_outgoing_edges_policy (constraints a) = ''allow_none''
      else valid_incoming_edges_policy (constraints a) = ''allow_none'')"
  by (simp add: check_edge_against_policy_def Let_def)

section \<open>The phases of spawn_task\<close>

lemma spawn_checks_ok:
  assumes "spawn_checks w c nt s = (s', Inr ())"
  shows "s' = s \<and>
     (\<exists>wfl cobj. workflows s w = Some wfl \<and> map_of (tasks wfl) c = Some cobj \<and>
        (\<forall>k. max_spawn_count (constraints cobj) = Some k \<longrightarrow>
             (\<exists>n. spawn_counts s (w, c) = Some n \<and> n < k)) \<and>
        check_node_against_policy cobj nt ''next'' = Inr () \<and>
        check_node_against_policy cobj nt ''previous'' = Inr () \<and>
        map_of (tasks wfl) (task_id nt) = None)"
  using assms unfolding spawn_checks_def
  by (auto split: option.splits sum.splits bool.splits exn.splits if_splits
           simp: fail_workflow_not_ok)

lemma spawn_checks_err:
  assumes "spawn_checks w c nt s = (s', Inl e)"
  shows "(s' = s \<and> e = KeyError \<and>
           (workflows s w = None \<or>
            (\<exists>wfl cobj. workflows s w = Some wfl \<and> map_of (tasks wfl) c = Some cobj \<and>
               max_spawn_count (constraints cobj) \<noteq> None \<and> spawn_counts s (w, c) = None)))
         \<or> (\<exists>m. fail_workflow w m s = (s', (Inl e :: exn + unit)))"
proof -
  have n1: "check_node_against_policy a b d \<noteq> Inl KeyError"
       "check_node_against_policy a b d \<noteq> Inl AttributeError"
       "check_node_against_policy a b d \<noteq> Inl (ValueError x)"
       "check_node_against_policy a b d \<noteq> Inl (UserError x)" for a b d x
    using check_node_result [of a b d] by auto
  show ?thesis
    using assms unfolding spawn_checks_def
    by (auto split: option.splits sum.splits bool.splits exn.splits if_splits simp: n1)
qed

lemma map_of_update_fresh:
  "map_of al n = None \<Longrightarrow> AList.update n v al = al @ [(n, v)]"
  by (induction al) (auto split: if_splits)

text \<open>The state after the insertion of a new task \<open>nt\<close> by creator \<open>c\<close> with count \<open>cnt\<close>.\<close>

lemma spawn_insert_ok:
  assumes "workflows s w = Some wfl" and "map_of (tasks wfl) (task_id nt) = None"
      and "map_of (tasks wfl) c = Some cobj" and "spawn_counts s (w, c) = Some cnt"
  shows "spawn_insert w c nt skip s =
     (s\<lparr> workflows := (workflows s)
            (w \<mapsto> wfl\<lparr> tasks := tasks wfl @ [(task_id nt, nt)],
                         visual_edges := visual_edges wfl @ (if skip then [] else [(c, task_id nt)]) \<rparr>),
         task_status := (task_status s)((w, task_id nt) \<mapsto> Pending),
         spawn_counts := (spawn_counts s)((w, task_id nt) \<mapsto> 0, (w, c) \<mapsto> cnt + 1),
         execution_history := (execution_history s)
            ((w, task_id nt) \<mapsto> (case execution_history s (w, c) of None \<Rightarrow> 0 | Some k \<Rightarrow> k) + 1) \<rparr>,
      Inr ())"
proof -
  have neq: "c \<noteq> task_id nt" using assms(2,3) by auto
  show ?thesis
    using assms neq
    by (simp add: spawn_insert_def Let_def map_of_update_fresh)
qed

lemma spawn_insert_no_count:
  assumes "workflows s w = Some wfl" and "map_of (tasks wfl) (task_id nt) = None"
      and "map_of (tasks wfl) c = Some cobj" and "spawn_counts s (w, c) = None"
  shows "spawn_insert w c nt skip s =
     (s\<lparr> workflows := (workflows s)(w \<mapsto> wfl\<lparr> tasks := tasks wfl @ [(task_id nt, nt)] \<rparr>),
         task_status := (task_status s)((w, task_id nt) \<mapsto> Pending),
         spawn_counts := (spawn_counts s)((w, task_id nt) \<mapsto> 0) \<rparr>,
      Inl KeyError)"
proof -
  have neq: "c \<noteq> task_id nt" using assms(2,3) by auto
  show ?thesis
    using assms neq
    by (simp add: spawn_insert_def Let_def map_of_update_fresh)
qed

lemma with_edges_Nil: "workflows s w = Some wfl \<Longrightarrow> with_edges w wfl [] s = s"
  by (simp add: with_edges_def map_upd_triv)

lemma with_edges_Cons:
  "with_edges w (wfl\<lparr> edges := edges wfl @ [e], visual_edges := visual_edges wfl @ [e] \<rparr>) es
     (with_edges w wfl [e] s) = with_edges w wfl (e # es) s"
  by (simp add: with_edges_def waiting_def)

lemma with_edges_one:
  "s\<lparr> workflows := (workflows s)
        (w \<mapsto> wfl\<lparr> edges := edges wfl @ [e], visual_edges := visual_edges wfl @ [e] \<rparr>),
      late_edges := late_edges s @
        (if snd e \<in> set (waiting w s) then [(w, fst e, snd e)] else []) \<rparr>
   = with_edges w wfl [e] s"
  by (simp add: with_edges_def)

lemma add_new_edges_step:
  assumes "workflows s w = Some wfl"
  shows "add_new_edges w c n (e # es) s =
     (if edge_ok c n (map_of (tasks wfl)) e
      then add_new_edges w c n es (with_edges w wfl [e] s)
      else if fst e \<notin> {c, n} \<and> snd e \<notin> {c, n}
        then fail_workflow w (''The edge ('' @ fst e @ '', '' @ snd e
                            @ '') is not related to the creator or the new task.'') s
      else (case map_of (tasks wfl) (fst e) of None \<Rightarrow> (s, Inl KeyError)
            | Some so \<Rightarrow> (case map_of (tasks wfl) (snd e) of None \<Rightarrow> (s, Inl KeyError)
            | Some dobj \<Rightarrow> fail_workflow w (''Task ''
                 @ (if check_edge_against_policy dobj (TaskObj so) ''incoming'' = Inr ()
                    then task_id so @ '' cannot create outgoing''
                    else task_id dobj @ '' cannot create incoming'')
                 @ '' edges.'') s)))"
proof (cases e)
  case (Pair src dst)
  show ?thesis
  proof (cases "src \<notin> {c, n} \<and> dst \<notin> {c, n}")
    case True
    then show ?thesis using Pair by (simp add: edge_ok_def)
  next
    case rel: False
    show ?thesis
    proof (cases "map_of (tasks wfl) src")
      case None
      then show ?thesis using Pair rel assms by (auto simp: edge_ok_def)
    next
      case so: (Some so)
      show ?thesis
      proof (cases "map_of (tasks wfl) dst")
        case None
        then show ?thesis using Pair rel assms so by (auto simp: edge_ok_def)
      next
        case dobj: (Some dobj)
        show ?thesis
          using check_edge_result [of dobj "TaskObj so" "''incoming''"]
                check_edge_result [of so "TaskName dst" "''outgoing''"]
                Pair rel assms so dobj
          by (auto simp: edge_ok_def with_edges_def)
      qed
    qed
  qed
qed

lemma add_new_edges_cases:
  assumes "workflows s w = Some wfl" and "add_new_edges w c n es s = (s', r)"
  shows "(r = Inr () \<and> s' = with_edges w wfl es s \<and> (\<forall>e \<in> set es. edge_ok c n (map_of (tasks wfl)) e))
      \<or> (\<exists>es1 e es2. es = es1 @ e # es2 \<and> (\<forall>e \<in> set es1. edge_ok c n (map_of (tasks wfl)) e)
            \<and> \<not> edge_ok c n (map_of (tasks wfl)) e
            \<and> ((r = Inl KeyError \<and> s' = with_edges w wfl es1 s \<and>
                 \<not> (map_of (tasks wfl) (fst e) \<noteq> None \<and> map_of (tasks wfl) (snd e) \<noteq> None))
               \<or> (\<exists>m. fail_workflow w m (with_edges w wfl es1 s) = (s', r))))"
  using assms
proof (induction es arbitrary: s wfl)
  case Nil
  then show ?case by (simp add: with_edges_Nil)
next
  case (Cons e es)
  show ?case
  proof (cases "edge_ok c n (map_of (tasks wfl)) e")
    case True
    let ?wfl1 = "wfl\<lparr> edges := edges wfl @ [e], visual_edges := visual_edges wfl @ [e] \<rparr>"
    let ?s1 = "with_edges w wfl [e] s"
    have w1: "workflows ?s1 w = Some ?wfl1" by (simp add: with_edges_def)
    have run: "add_new_edges w c n es ?s1 = (s', r)"
      using Cons.prems True by (simp add: add_new_edges_step del: add_new_edges.simps)
    have tm: "map_of (tasks ?wfl1) = map_of (tasks wfl)" by simp
    from Cons.IH [OF w1 run, unfolded tm with_edges_Cons]
    show ?thesis
    proof (elim disjE conjE exE)
      assume "r = Inr ()" "s' = with_edges w wfl (e # es) s"
             "\<forall>e \<in> set es. edge_ok c n (map_of (tasks wfl)) e"
      then show ?thesis using True by simp
    next
      fix es1 e' es2
      assume a: "es = es1 @ e' # es2" "\<forall>e \<in> set es1. edge_ok c n (map_of (tasks wfl)) e"
                "\<not> edge_ok c n (map_of (tasks wfl)) e'"
                "r = Inl KeyError" "s' = with_edges w wfl (e # es1) s"
                "\<not> (map_of (tasks wfl) (fst e') \<noteq> None \<and> map_of (tasks wfl) (snd e') \<noteq> None)"
      have "e # es = (e # es1) @ e' # es2" using a by simp
      moreover have "\<forall>x \<in> set (e # es1). edge_ok c n (map_of (tasks wfl)) x" using a True by simp
      ultimately show ?thesis using a by blast
    next
      fix es1 e' es2 m
      assume a: "es = es1 @ e' # es2" "\<forall>e \<in> set es1. edge_ok c n (map_of (tasks wfl)) e"
                "\<not> edge_ok c n (map_of (tasks wfl)) e'"
                "fail_workflow w m (with_edges w wfl (e # es1) s) = (s', r)"
      have "e # es = (e # es1) @ e' # es2" using a by simp
      moreover have "\<forall>x \<in> set (e # es1). edge_ok c n (map_of (tasks wfl)) x" using a True by simp
      ultimately show ?thesis using a by blast
    qed
  next
    case False
    have split: "e # es = [] @ e # es" by simp
    have "(r = Inl KeyError \<and> s' = s \<and>
             \<not> (map_of (tasks wfl) (fst e) \<noteq> None \<and> map_of (tasks wfl) (snd e) \<noteq> None))
          \<or> (\<exists>m. fail_workflow w m s = (s', r))"
      using Cons.prems False
      by (auto simp: add_new_edges_step simp del: add_new_edges.simps split: if_splits option.splits)
    then have "(r = Inl KeyError \<and> s' = with_edges w wfl [] s \<and>
                  \<not> (map_of (tasks wfl) (fst e) \<noteq> None \<and> map_of (tasks wfl) (snd e) \<noteq> None))
               \<or> (\<exists>m. fail_workflow w m (with_edges w wfl [] s) = (s', r))"
      using Cons.prems(1) by (simp add: with_edges_Nil)
    with False split show ?thesis by (metis empty_iff set_empty2)
  qed
qed

lemma spawn_insert_inserted:
  assumes "workflows s w = Some wfl" and "map_of (tasks wfl) (task_id nt) = None"
      and "map_of (tasks wfl) c = Some cobj" and "spawn_counts s (w, c) = Some cnt"
  shows "spawn_insert w c nt skip s = (inserted w c nt skip wfl cnt s, Inr ())"
  unfolding spawn_insert_ok [OF assms] inserted_def inserted_wfl_def by simp

lemma spawn_finish_cases:
  assumes "workflows s w = Some wfl" and "spawn_finish w nt inp s = (s', r)"
  shows "(\<not> is_acyclic wfl \<and> fail_workflow w ''spawn_task caused cycle'' s = (s', r))
       \<or> (is_acyclic wfl \<and> \<not> enqueues_new_root inp (task_id nt) (edges wfl) \<and> r = Inr () \<and> s' = s)
       \<or> (is_acyclic wfl \<and> enqueues_new_root inp (task_id nt) (edges wfl) \<and>
          ready_queue s w = None \<and> r = Inl KeyError \<and> s' = s)
       \<or> (is_acyclic wfl \<and> enqueues_new_root inp (task_id nt) (edges wfl) \<and> r = Inr () \<and>
          (\<exists>q. ready_queue s w = Some q \<and>
               s' = s\<lparr> ready_queue := (ready_queue s)(w \<mapsto> q @ [(task_id nt, inp)]) \<rparr>))"
  using assms
  by (auto simp: spawn_finish_def enqueues_new_root_def Let_def split: if_splits option.splits)

lemma spawn_checks_admitted:
  "spawn_checks w c nt s = (s', Inr ()) \<Longrightarrow> s' = s \<and> (\<exists>wfl cobj. spawn_admitted w c nt wfl cobj s)"
  using spawn_checks_ok [of w c nt s s'] unfolding spawn_admitted_def by blast

lemma inserted_simps [simp]:
  "workflows (inserted w c nt skip wfl cnt s) = (workflows s)(w \<mapsto> inserted_wfl c nt skip wfl)"
  "ready_queue (inserted w c nt skip wfl cnt s) = ready_queue s"
  "running_loops (inserted w c nt skip wfl cnt s) = running_loops s"
  "task_status (inserted w c nt skip wfl cnt s) = (task_status s)((w, task_id nt) \<mapsto> Pending)"
  "task_inputs (inserted w c nt skip wfl cnt s) = task_inputs s"
  "task_outputs (inserted w c nt skip wfl cnt s) = task_outputs s"
  "spawn_counts (inserted w c nt skip wfl cnt s) =
     (spawn_counts s)((w, task_id nt) \<mapsto> 0, (w, c) \<mapsto> cnt + 1)"
  "invocations (inserted w c nt skip wfl cnt s) = invocations s"
  "spawned (inserted w c nt skip wfl cnt s) = spawned s"
  "run_counter (inserted w c nt skip wfl cnt s) = run_counter s"
  "visualization_counter (inserted w c nt skip wfl cnt s) = visualization_counter s"
  by (simp_all add: inserted_def)

lemma inserted_wfl_simps [simp]:
  "tasks (inserted_wfl c nt skip wfl) = tasks wfl @ [(task_id nt, nt)]"
  "edges (inserted_wfl c nt skip wfl) = edges wfl"
  "workflow_id (inserted_wfl c nt skip wfl) = workflow_id wfl"
  by (simp_all add: inserted_wfl_def)

lemma with_edges_simps [simp]:
  "workflows (with_edges w wfl es s) =
     (workflows s)(w \<mapsto> wfl\<lparr> edges := edges wfl @ es, visual_edges := visual_edges wfl @ es \<rparr>)"
  "ready_queue (with_edges w wfl es s) = ready_queue s"
  "running_loops (with_edges w wfl es s) = running_loops s"
  "task_status (with_edges w wfl es s) = task_status s"
  "task_inputs (with_edges w wfl es s) = task_inputs s"
  "task_outputs (with_edges w wfl es s) = task_outputs s"
  "spawn_counts (with_edges w wfl es s) = spawn_counts s"
  "invocations (with_edges w wfl es s) = invocations s"
  "spawned (with_edges w wfl es s) = spawned s"
  "execution_history (with_edges w wfl es s) = execution_history s"
  "run_counter (with_edges w wfl es s) = run_counter s"
  "visualization_counter (with_edges w wfl es s) = visualization_counter s"
  by (simp_all add: with_edges_def)

text \<open>Every way in which \<open>spawn_task\<close> can end.\<close>

lemma spawn_task_cases:
  assumes "spawn_task w c nt es inp skip s = (s', r)"
  shows "(r = Inl KeyError \<and> s' = s \<and>
           (workflows s w = None \<or>
            (\<exists>wfl cobj. workflows s w = Some wfl \<and> map_of (tasks wfl) c = Some cobj \<and>
               max_spawn_count (constraints cobj) \<noteq> None \<and> spawn_counts s (w, c) = None)))
       \<or> (\<exists>m. fail_workflow w m s = (s', r))
       \<or> (\<exists>wfl cobj. spawn_admitted w c nt wfl cobj s \<and>
            ((spawn_counts s (w, c) = None \<and> r = Inl KeyError \<and>
              s' = s\<lparr> workflows := (workflows s)(w \<mapsto> wfl\<lparr> tasks := tasks wfl @ [(task_id nt, nt)] \<rparr>),
                      task_status := (task_status s)((w, task_id nt) \<mapsto> Pending),
                      spawn_counts := (spawn_counts s)((w, task_id nt) \<mapsto> 0) \<rparr>)
           \<or> (\<exists>cnt. spawn_counts s (w, c) = Some cnt \<and>
                ((\<exists>es1 e es2. es = es1 @ e # es2 \<and>
                    (\<forall>x \<in> set es1. edge_ok c (task_id nt) (map_of (tasks wfl @ [(task_id nt, nt)])) x) \<and>
                    \<not> edge_ok c (task_id nt) (map_of (tasks wfl @ [(task_id nt, nt)])) e \<and>
                    ((r = Inl KeyError \<and>
                      s' = with_edges w (inserted_wfl c nt skip wfl) es1 (inserted w c nt skip wfl cnt s) \<and>
                      \<not> (map_of (tasks wfl @ [(task_id nt, nt)]) (fst e) \<noteq> None \<and>
                         map_of (tasks wfl @ [(task_id nt, nt)]) (snd e) \<noteq> None))
                     \<or> (\<exists>m. fail_workflow w m
                              (with_edges w (inserted_wfl c nt skip wfl) es1
                                 (inserted w c nt skip wfl cnt s)) = (s', r))))
               \<or> ((\<forall>x \<in> set es. edge_ok c (task_id nt) (map_of (tasks wfl @ [(task_id nt, nt)])) x) \<and>
                   ((\<not> acyclic (set (edges wfl @ es)) \<and>
                     fail_workflow w ''spawn_task caused cycle''
                        (with_edges w (inserted_wfl c nt skip wfl) es
                           (inserted w c nt skip wfl cnt s)) = (s', r))
                    \<or> (acyclic (set (edges wfl @ es)) \<and>
                        enqueues_new_root inp (task_id nt) (edges wfl @ es) \<and>
                        ready_queue s w = None \<and> r = Inl KeyError \<and>
                        s' = with_edges w (inserted_wfl c nt skip wfl) es
                               (inserted w c nt skip wfl cnt s))
                    \<or> (acyclic (set (edges wfl @ es)) \<and>
                        (enqueues_new_root inp (task_id nt) (edges wfl @ es) \<longrightarrow> ready_queue s w \<noteq> None) \<and>
                        r = Inr () \<and> s' = after_spawn w c nt es inp skip wfl cnt s)))))))"
proof (cases "spawn_checks w c nt s")
  case (Pair s1 r1)
  show ?thesis
  proof (cases r1)
    case (Inl e)
    with Pair assms have "s' = s1" "r = Inl e" by (auto simp: spawn_task_def)
    with spawn_checks_err [of w c nt s s1 e] Pair Inl show ?thesis by auto
  next
    case (Inr u)
    with Pair spawn_checks_admitted [of w c nt s s1] obtain wfl cobj
      where s1: "s1 = s" and adm: "spawn_admitted w c nt wfl cobj s" by auto
    from adm have wfl: "workflows s w = Some wfl" and cobj: "map_of (tasks wfl) c = Some cobj"
      and fresh: "map_of (tasks wfl) (task_id nt) = None"
      by (auto simp: spawn_admitted_def)
    show ?thesis
    proof (cases "spawn_counts s (w, c)")
      case None
      from spawn_insert_no_count [OF wfl fresh cobj None, of skip] assms Pair Inr s1
      have "r = Inl KeyError \<and>
              s' = s\<lparr> workflows := (workflows s)(w \<mapsto> wfl\<lparr> tasks := tasks wfl @ [(task_id nt, nt)] \<rparr>),
                      task_status := (task_status s)((w, task_id nt) \<mapsto> Pending),
                      spawn_counts := (spawn_counts s)((w, task_id nt) \<mapsto> 0) \<rparr>"
        by (auto simp: spawn_task_def)
      with adm None show ?thesis by blast
    next
      case (Some cnt)
      let ?iw = "inserted_wfl c nt skip wfl"
      let ?ins = "inserted w c nt skip wfl cnt s"
      have ins: "spawn_insert w c nt skip s = (?ins, Inr ())"
        by (rule spawn_insert_inserted [OF wfl fresh cobj Some])
      have wins: "workflows ?ins w = Some ?iw" by simp
      obtain s3 r3 where ane: "add_new_edges w c (task_id nt) es ?ins = (s3, r3)"
        by (cases "add_new_edges w c (task_id nt) es ?ins") auto
      have rest: "(case r3 of Inl e \<Rightarrow> (s3, Inl e)
                   | Inr _ \<Rightarrow> (case spawn_finish w nt inp s3 of
                        (s4, Inl e) \<Rightarrow> (s4, Inl e)
                      | (s4, Inr _) \<Rightarrow> (s4\<lparr> spawned := spawned s4 @ [(w, c)] \<rparr>, Inr ()))) = (s', r)"
        using assms Pair Inr s1 ins ane by (simp add: spawn_task_def split: sum.splits)
      from add_new_edges_cases [OF wins ane]
      show ?thesis
      proof (elim disjE conjE exE)
        fix es1 e es2
        assume a: "es = es1 @ e # es2" "\<forall>x \<in> set es1. edge_ok c (task_id nt) (map_of (tasks ?iw)) x"
                  "\<not> edge_ok c (task_id nt) (map_of (tasks ?iw)) e"
                  "r3 = Inl KeyError" "s3 = with_edges w ?iw es1 ?ins"
                  "\<not> (map_of (tasks ?iw) (fst e) \<noteq> None \<and> map_of (tasks ?iw) (snd e) \<noteq> None)"
        with rest have "r = Inl KeyError" "s' = with_edges w ?iw es1 ?ins" by auto
        with a adm Some show ?thesis unfolding inserted_wfl_simps by blast
      next
        fix es1 e es2 m
        assume a: "es = es1 @ e # es2" "\<forall>x \<in> set es1. edge_ok c (task_id nt) (map_of (tasks ?iw)) x"
                  "\<not> edge_ok c (task_id nt) (map_of (tasks ?iw)) e"
                  "fail_workflow w m (with_edges w ?iw es1 ?ins) = (s3, r3)"
        from fail_workflow_result [OF a(4)] rest have "r = r3" "s' = s3" by auto
        with a adm Some show ?thesis unfolding inserted_wfl_simps by blast
      next
        assume a: "r3 = Inr ()" "s3 = with_edges w ?iw es ?ins"
                  "\<forall>x \<in> set es. edge_ok c (task_id nt) (map_of (tasks ?iw)) x"
        let ?s3 = "with_edges w ?iw es ?ins"
        let ?w3 = "?iw\<lparr> edges := edges ?iw @ es, visual_edges := visual_edges ?iw @ es \<rparr>"
        have w3: "workflows ?s3 w = Some ?w3" by simp
        have acyc: "is_acyclic ?w3 \<longleftrightarrow> acyclic (set (edges wfl @ es))"
          by (simp add: is_acyclic_def is_directed_acyclic_graph_def)
        have e3: "edges ?w3 = edges wfl @ es" by simp
        obtain s4 r4 where fin: "spawn_finish w nt inp ?s3 = (s4, r4)"
          by (cases "spawn_finish w nt inp ?s3") auto
        from rest a fin have rest':
          "(case r4 of Inl e \<Rightarrow> (s4, Inl e)
            | Inr _ \<Rightarrow> (s4\<lparr> spawned := spawned s4 @ [(w, c)] \<rparr>, Inr ())) = (s', r)"
          by (simp split: sum.splits)
        from spawn_finish_cases [OF w3 fin, unfolded acyc e3]
        show ?thesis
        proof (elim disjE conjE exE)
          assume b: "\<not> acyclic (set (edges wfl @ es))"
                    "fail_workflow w ''spawn_task caused cycle'' ?s3 = (s4, r4)"
          from fail_workflow_result [OF b(2)] rest' have "r = r4" "s' = s4" by auto
          with a b adm Some show ?thesis unfolding inserted_wfl_simps by blast
        next
          assume b: "acyclic (set (edges wfl @ es))"
                    "\<not> enqueues_new_root inp (task_id nt) (edges wfl @ es)"
                    "r4 = Inr ()" "s4 = ?s3"
          with rest' have "r = Inr ()" "s' = after_spawn w c nt es inp skip wfl cnt s"
            by (auto simp: after_spawn_def with_edges_def inserted_def)
          with a b adm Some show ?thesis unfolding inserted_wfl_simps by blast
        next
          assume b: "acyclic (set (edges wfl @ es))"
                    "enqueues_new_root inp (task_id nt) (edges wfl @ es)"
                    "ready_queue ?s3 w = None" "r4 = Inl KeyError" "s4 = ?s3"
          with rest' have "r = Inl KeyError" "s' = ?s3" by auto
          with a b adm Some show ?thesis unfolding inserted_wfl_simps by auto
        next
          fix q
          assume b: "acyclic (set (edges wfl @ es))"
                    "enqueues_new_root inp (task_id nt) (edges wfl @ es)"
                    "r4 = Inr ()" "ready_queue ?s3 w = Some q"
                    "s4 = ?s3\<lparr> ready_queue := (ready_queue ?s3)(w \<mapsto> q @ [(task_id nt, inp)]) \<rparr>"
          with rest' have "r = Inr ()" "s' = after_spawn w c nt es inp skip wfl cnt s"
            by (auto simp: after_spawn_def with_edges_def inserted_def)
          with a b adm Some show ?thesis unfolding inserted_wfl_simps by auto
        qed
      qed
    qed
  qed
qed

lemma spawn_task_ok:
  assumes "spawn_task w c nt es inp skip s = (s', Inr ())"
  shows "\<exists>wfl cobj cnt. spawn_admitted w c nt wfl cobj s \<and> spawn_counts s (w, c) = Some cnt \<and>
           (\<forall>x \<in> set es. edge_ok c (task_id nt) (map_of (tasks wfl @ [(task_id nt, nt)])) x) \<and>
           acyclic (set (edges wfl @ es)) \<and>
           (enqueues_new_root inp (task_id nt) (edges wfl @ es) \<longrightarrow> ready_queue s w \<noteq> None) \<and>
           s' = after_spawn w c nt es inp skip wfl cnt s"
  using spawn_task_cases [OF assms] by (auto simp: fail_workflow_not_ok)

lemma spawn_task_abort_from:
  assumes "spawn_task w c nt es inp skip s = (s', Inl (RuntimeError x))"
  shows "\<exists>m s_mid. fail_workflow w m s_mid = (s', (Inl (RuntimeError x) :: exn + unit)) \<and>
           (s_mid = s \<or>
            (\<exists>wfl cobj cnt es1. spawn_admitted w c nt wfl cobj s \<and>
               s_mid = with_edges w (inserted_wfl c nt skip wfl) es1 (inserted w c nt skip wfl cnt s)))"
  using spawn_task_cases [OF assms] by (elim disjE conjE exE) (simp_all, blast+)

lemma after_spawn_workflow:
  "workflows (after_spawn w c nt es inp skip wfl cnt s) w =
     Some (wfl\<lparr> tasks := tasks wfl @ [(task_id nt, nt)], edges := edges wfl @ es,
                visual_edges := visual_edges wfl @ (if skip then [] else [(c, task_id nt)]) @ es \<rparr>)"
  by (simp add: after_spawn_def Let_def inserted_wfl_def)

lemma add_dependencies_tasks:
  "add_dependencies task deps wfl = (wfl', r) \<Longrightarrow> tasks wfl' = tasks wfl"
  by (induction deps arbitrary: wfl) (auto split: option.splits sum.splits)

section \<open>Acyclicity\<close>

text \<open>
  Claim C5. When \<open>add_task\<close> returns without error, and when \<open>spawn_task\<close> returns without
  error, the directed graph of the workflow's edges list has no cycle.
\<close>

theorem acyclic_after_add_task_and_spawn_task:
  "(add_task task dependencies wfl = (wfl', Inr ()) \<longrightarrow> acyclic (set (edges wfl')))
   \<and> (spawn_task w c nt es inp skip s = (s', Inr ()) \<longrightarrow>
        (\<exists>wfl'. workflows s' w = Some wfl' \<and> acyclic (set (edges wfl'))))"
proof (intro conjI impI)
  assume "add_task task dependencies wfl = (wfl', Inr ())"
  then show "acyclic (set (edges wfl'))"
    by (auto simp: add_task_def assert_no_cycle_def is_directed_acyclic_graph_def
             split: if_splits prod.splits sum.splits)
next
  assume "spawn_task w c nt es inp skip s = (s', Inr ())"
  from spawn_task_ok [OF this] obtain wfl0 cnt
    where "acyclic (set (edges wfl0 @ es))" "s' = after_spawn w c nt es inp skip wfl0 cnt s"
    by blast
  then show "\<exists>wfl'. workflows s' w = Some wfl' \<and> acyclic (set (edges wfl'))"
    by (simp add: after_spawn_workflow)
qed

section \<open>What an abort does\<close>

lemma status_cases: "st = Pending \<or> st = Running \<or> st = Done \<or> st = Failed"
  by (cases st) auto

lemma map_of_None_notin: "map_of al k = None \<Longrightarrow> k \<notin> fst ` set al"
  by (simp add: map_of_eq_None_iff)

lemma aborted_terminal:
  assumes "m (w, t) \<noteq> None" and "t \<in> T"
  shows "aborted_status w T m (w, t) = Some Done \<or> aborted_status w T m (w, t) = Some Failed"
proof -
  from assms obtain st where "m (w, t) = Some st" by auto
  then show ?thesis using assms(2) status_cases [of st] by (auto simp: aborted_status_def)
qed

lemma spawn_task_abort_effects:
  assumes run: "spawn_task w c nt es inp skip s = (s', Inl (RuntimeError x))"
      and wfl: "workflows s w = Some wfl"
  shows "(\<exists>msg. x = abort_message w msg)
       \<and> ready_queue s' = (ready_queue s)(w \<mapsto> [])
       \<and> running_loops s' = (running_loops s)(w \<mapsto> False)
       \<and> (\<exists>wfl'. workflows s' w = Some wfl' \<and>
             (\<forall>t \<in> fst ` set (tasks wfl').
                 task_status s' (w, t) = Some Done \<or> task_status s' (w, t) = Some Failed))
       \<and> (\<forall>t \<in> fst ` set (tasks wfl).
             task_status s' (w, t) =
               (if task_status s (w, t) = Some Pending \<or> task_status s (w, t) = Some Running
                then Some Failed else task_status s (w, t)))
       \<and> (\<forall>k. fst k \<noteq> w \<longrightarrow> task_status s' k = task_status s k)
       \<and> task_outputs s' = task_outputs s \<and> task_inputs s' = task_inputs s"
proof -
  from spawn_task_abort_from [OF run] obtain m s_mid
    where fw: "fail_workflow w m s_mid = (s', (Inl (RuntimeError x) :: exn + unit))"
      and mid: "s_mid = s \<or>
            (\<exists>wfl cobj cnt es1. spawn_admitted w c nt wfl cobj s \<and>
               s_mid = with_edges w (inserted_wfl c nt skip wfl) es1 (inserted w c nt skip wfl cnt s))"
    by blast
  from fail_workflow_abort [OF fw] obtain wm
    where wm: "workflows s_mid w = Some wm"
      and defd: "\<forall>t \<in> fst ` set (tasks wm). task_status s_mid (w, t) \<noteq> None"
      and x: "x = abort_message w m"
      and s': "s' = s_mid\<lparr> ready_queue := (ready_queue s_mid)(w \<mapsto> []),
                   task_status := aborted_status w (fst ` set (tasks wm)) (task_status s_mid),
                   running_loops := (running_loops s_mid)(w \<mapsto> False) \<rparr>"
    by blast
  have fin: "\<forall>t \<in> fst ` set (tasks wm).
                 task_status s' (w, t) = Some Done \<or> task_status s' (w, t) = Some Failed"
    using defd s' aborted_terminal by simp
  from mid show ?thesis
  proof
    assume eq: "s_mid = s"
    with wm wfl have "wm = wfl" by simp
    with eq s' x fin wfl show ?thesis
      by (auto simp: aborted_status_def)
  next
    assume "\<exists>wfl cobj cnt es1. spawn_admitted w c nt wfl cobj s \<and>
               s_mid = with_edges w (inserted_wfl c nt skip wfl) es1 (inserted w c nt skip wfl cnt s)"
    then obtain wfl0 cobj cnt es1 where adm: "spawn_admitted w c nt wfl0 cobj s"
      and sm: "s_mid = with_edges w (inserted_wfl c nt skip wfl0) es1 (inserted w c nt skip wfl0 cnt s)"
      by blast
    from adm wfl have w0: "wfl0 = wfl" and fresh: "map_of (tasks wfl) (task_id nt) = None"
      by (auto simp: spawn_admitted_def)
    from wm sm have tw: "tasks wm = tasks wfl @ [(task_id nt, nt)]"
      using w0 by auto
    have notin: "task_id nt \<notin> fst ` set (tasks wfl)"
      using fresh by (rule map_of_None_notin)
    then have notin': "\<And>b. (task_id nt, b) \<notin> set (tasks wfl)"
      by force
    have ws': "workflows s' w = Some wm" using s' wm by simp
    have st: "\<forall>t \<in> fst ` set (tasks wfl).
             task_status s' (w, t) =
               (if task_status s (w, t) = Some Pending \<or> task_status s (w, t) = Some Running
                then Some Failed else task_status s (w, t))"
      using s' sm tw notin notin' by (auto simp: aborted_status_def)
    have other: "\<forall>k. fst k \<noteq> w \<longrightarrow> task_status s' k = task_status s k"
      using s' sm by (auto simp: aborted_status_def)
    show ?thesis
      using x ws' fin st other s' sm by auto
  qed
qed

lemma spawn_task_violation_fails:
  assumes run: "spawn_task w c nt es inp skip s = (s', r)"
      and wfl: "workflows s w = Some wfl"
      and viol: "map_of (tasks wfl) c = None
      \<or> (\<exists>cobj k n. map_of (tasks wfl) c = Some cobj \<and> max_spawn_count (constraints cobj) = Some k
              \<and> spawn_counts s (w, c) = Some n \<and> k \<le> n)
      \<or> (\<exists>cobj. map_of (tasks wfl) c = Some cobj \<and>
              (check_node_against_policy cobj nt ''next'' \<noteq> Inr ()
               \<or> check_node_against_policy cobj nt ''previous'' \<noteq> Inr ()))
      \<or> map_of (tasks wfl) (task_id nt) \<noteq> None
      \<or> (\<exists>(src, dst) \<in> set es. src \<notin> {c, task_id nt} \<and> dst \<notin> {c, task_id nt})
      \<or> (\<exists>(src, dst) \<in> set es. \<exists>src_object dst_object.
              map_of (tasks wfl @ [(task_id nt, nt)]) src = Some src_object \<and>
              map_of (tasks wfl @ [(task_id nt, nt)]) dst = Some dst_object \<and>
              (check_edge_against_policy dst_object (TaskObj src_object) ''incoming'' \<noteq> Inr ()
               \<or> check_edge_against_policy src_object (TaskName dst) ''outgoing'' \<noteq> Inr ()))
      \<or> \<not> acyclic (set (edges wfl @ es))"
  shows "r \<noteq> Inr ()"
proof
  assume "r = Inr ()"
  with run have "spawn_task w c nt es inp skip s = (s', Inr ())" by simp
  from spawn_task_ok [OF this] obtain wfl0 cobj cnt
    where adm: "spawn_admitted w c nt wfl0 cobj s"
      and cnt: "spawn_counts s (w, c) = Some cnt"
      and eok: "\<forall>x \<in> set es. edge_ok c (task_id nt) (map_of (tasks wfl0 @ [(task_id nt, nt)])) x"
      and acy: "acyclic (set (edges wfl0 @ es))"
    by blast
  from adm wfl have w0: "wfl0 = wfl" by (simp add: spawn_admitted_def)
  from viol show False
  proof (elim disjE)
    assume "map_of (tasks wfl) c = None"
    with adm w0 show False by (simp add: spawn_admitted_def)
  next
    assume "\<exists>cobj k n. map_of (tasks wfl) c = Some cobj \<and> max_spawn_count (constraints cobj) = Some k
              \<and> spawn_counts s (w, c) = Some n \<and> k \<le> n"
    with adm w0 show False by (auto simp: spawn_admitted_def)
  next
    assume "\<exists>cobj. map_of (tasks wfl) c = Some cobj \<and>
              (check_node_against_policy cobj nt ''next'' \<noteq> Inr ()
               \<or> check_node_against_policy cobj nt ''previous'' \<noteq> Inr ())"
    with adm w0 show False by (auto simp: spawn_admitted_def)
  next
    assume "map_of (tasks wfl) (task_id nt) \<noteq> None"
    with adm w0 show False by (simp add: spawn_admitted_def)
  next
    assume "\<exists>(src, dst) \<in> set es. src \<notin> {c, task_id nt} \<and> dst \<notin> {c, task_id nt}"
    with eok show False by (fastforce simp: edge_ok_def)
  next
    assume "\<exists>(src, dst) \<in> set es. \<exists>src_object dst_object.
              map_of (tasks wfl @ [(task_id nt, nt)]) src = Some src_object \<and>
              map_of (tasks wfl @ [(task_id nt, nt)]) dst = Some dst_object \<and>
              (check_edge_against_policy dst_object (TaskObj src_object) ''incoming'' \<noteq> Inr ()
               \<or> check_edge_against_policy src_object (TaskName dst) ''outgoing'' \<noteq> Inr ())"
    with eok w0 show False by (fastforce simp: edge_ok_def)
  next
    assume "\<not> acyclic (set (edges wfl @ es))"
    with acy w0 show False by simp
  qed
qed

lemma fail_workflow_mid_total:
  assumes "workflows s w = Some wfl" and "ready_queue s w \<noteq> None"
      and "\<forall>t \<in> fst ` set (tasks wfl). task_status s (w, t) \<noteq> None"
  shows "snd (fail_workflow w m
                (with_edges w (inserted_wfl c nt skip wfl) es1 (inserted w c nt skip wfl cnt s)))
         = (Inl (RuntimeError (abort_message w m)) :: exn + unit)"
proof -
  let ?mid = "with_edges w (inserted_wfl c nt skip wfl) es1 (inserted w c nt skip wfl cnt s)"
  let ?wm = "(inserted_wfl c nt skip wfl)\<lparr> edges := edges (inserted_wfl c nt skip wfl) @ es1,
                visual_edges := visual_edges (inserted_wfl c nt skip wfl) @ es1 \<rparr>"
  from assms(2) obtain q where q: "ready_queue ?mid w = Some q" by auto
  have wm: "workflows ?mid w = Some ?wm" by simp
  have "\<forall>t \<in> fst ` set (tasks ?wm). task_status ?mid (w, t) \<noteq> None"
    using assms(3) by auto
  from fail_workflow_total [OF wm q this] show ?thesis .
qed

lemma spawn_task_no_KeyError:
  assumes run: "spawn_task w c nt es inp skip s = (s', r)"
      and wfl: "workflows s w = Some wfl"
      and queue: "ready_queue s w \<noteq> None"
      and sts: "\<forall>t \<in> fst ` set (tasks wfl). task_status s (w, t) \<noteq> None"
      and cnt: "spawn_counts s (w, c) \<noteq> None"
      and ends: "\<forall>e \<in> set es. map_of (tasks wfl @ [(task_id nt, nt)]) (fst e) \<noteq> None \<and>
                              map_of (tasks wfl @ [(task_id nt, nt)]) (snd e) \<noteq> None"
  shows "r \<noteq> Inl KeyError"
proof -
  from queue obtain q where q: "ready_queue s w = Some q" by auto
  have tot: "snd (fail_workflow w m s) = (Inl (RuntimeError (abort_message w m)) :: exn + unit)" for m
    by (rule fail_workflow_total [OF wfl q sts])
  have adm_wfl: "wfl0 = wfl" if "spawn_admitted w c nt wfl0 cobj s" for wfl0 cobj
    using that wfl by (simp add: spawn_admitted_def)
  from spawn_task_cases [OF run] show ?thesis
  proof (elim disjE conjE exE)
    assume "workflows s w = None"
    with wfl show ?thesis by simp
  next
    fix wfl0 cobj
    assume "spawn_counts s (w, c) = None" "max_spawn_count (constraints cobj) \<noteq> None"
    with cnt show ?thesis by simp
  next
    fix m assume "fail_workflow w m s = (s', r)"
    with tot [of m] show ?thesis by auto
  next
    fix wfl0 cobj
    assume "spawn_counts s (w, c) = None" "spawn_admitted w c nt wfl0 cobj s"
    with cnt show ?thesis by simp
  next
    fix wfl0 cobj cnt0 es1 e es2
    assume a: "spawn_admitted w c nt wfl0 cobj s" "es = es1 @ e # es2"
      "\<not> (map_of (tasks wfl0 @ [(task_id nt, nt)]) (fst e) \<noteq> None \<and>
          map_of (tasks wfl0 @ [(task_id nt, nt)]) (snd e) \<noteq> None)"
    from ends a(2) have "map_of (tasks wfl @ [(task_id nt, nt)]) (fst e) \<noteq> None \<and>
                              map_of (tasks wfl @ [(task_id nt, nt)]) (snd e) \<noteq> None"
      by simp
    with a(3) adm_wfl [OF a(1)] show ?thesis by blast
  next
    fix wfl0 cobj cnt0 es1 e es2 m
    assume a: "spawn_admitted w c nt wfl0 cobj s"
      "fail_workflow w m (with_edges w (inserted_wfl c nt skip wfl0) es1
                            (inserted w c nt skip wfl0 cnt0 s)) = (s', r)"
    from fail_workflow_mid_total [OF wfl queue sts, of m c nt skip es1 cnt0] a(2) adm_wfl [OF a(1)]
    show ?thesis by auto
  next
    fix wfl0 cobj cnt0
    assume a: "spawn_admitted w c nt wfl0 cobj s"
      "fail_workflow w ''spawn_task caused cycle'' (with_edges w (inserted_wfl c nt skip wfl0) es
                            (inserted w c nt skip wfl0 cnt0 s)) = (s', r)"
    from fail_workflow_mid_total [OF wfl queue sts, of "''spawn_task caused cycle''" c nt skip es cnt0]
         a(2) adm_wfl [OF a(1)]
    show ?thesis by auto
  next
    assume "ready_queue s w = None"
    with queue show ?thesis by simp
  next
    assume "r = Inr ()"
    then show ?thesis by simp
  qed
qed

lemma spawn_task_result:
  assumes "spawn_task w c nt es inp skip s = (s', r)"
  shows "r = Inr () \<or> r = Inl KeyError \<or> (\<exists>msg. r = Inl (RuntimeError (abort_message w msg)))"
  using spawn_task_cases [OF assms]
  by (elim disjE conjE exE) (auto dest: fail_workflow_result)

lemma spawn_task_unknown_creator:
  assumes wfl: "workflows s w = Some wfl" and queue: "ready_queue s w \<noteq> None"
      and sts: "\<forall>t \<in> fst ` set (tasks wfl). task_status s (w, t) \<noteq> None"
      and none: "map_of (tasks wfl) c = None"
  shows "snd (spawn_task w c nt es inp skip s) =
           Inl (RuntimeError (abort_message w (''Creator '' @ c @ '' not in wf '' @ w)))"
proof -
  from queue obtain q where q: "ready_queue s w = Some q" by auto
  let ?m = "''Creator '' @ c @ '' not in wf '' @ w"
  have "snd (fail_workflow w ?m s) = (Inl (RuntimeError (abort_message w ?m)) :: exn + unit)"
    by (rule fail_workflow_total [OF wfl q sts])
  then obtain s1 where "fail_workflow w ?m s = (s1, (Inl (RuntimeError (abort_message w ?m)) :: exn + unit))"
    by (metis prod.collapse)
  then show ?thesis
    using wfl none by (simp add: spawn_task_def spawn_checks_def)
qed

lemma spawn_task_quota_exhausted:
  assumes wfl: "workflows s w = Some wfl" and queue: "ready_queue s w \<noteq> None"
      and sts: "\<forall>t \<in> fst ` set (tasks wfl). task_status s (w, t) \<noteq> None"
      and cobj: "map_of (tasks wfl) c = Some cobj"
      and quota: "max_spawn_count (constraints cobj) = Some k" "spawn_counts s (w, c) = Some n" "k \<le> n"
  shows "snd (spawn_task w c nt es inp skip s) =
           Inl (RuntimeError (abort_message w (''Task '' @ c @ '' exceeded spawn count'')))
         \<and> workflows (fst (spawn_task w c nt es inp skip s)) = workflows s
         \<and> spawn_counts (fst (spawn_task w c nt es inp skip s)) = spawn_counts s"
proof -
  from queue obtain q where q: "ready_queue s w = Some q" by auto
  let ?m = "''Task '' @ c @ '' exceeded spawn count''"
  have "snd (fail_workflow w ?m s) = (Inl (RuntimeError (abort_message w ?m)) :: exn + unit)"
    by (rule fail_workflow_total [OF wfl q sts])
  then obtain s1 where fw: "fail_workflow w ?m s = (s1, (Inl (RuntimeError (abort_message w ?m)) :: exn + unit))"
    by (metis prod.collapse)
  from fail_workflow_frame [OF fw] have "workflows s1 = workflows s" "spawn_counts s1 = spawn_counts s"
    by simp_all
  then show ?thesis
    using wfl cobj quota fw by (simp add: spawn_task_def spawn_checks_def)
qed

section \<open>Failed preconditions of spawn_task abort the workflow\<close>

lemma wf_AB_id: "workflow_id wf_AB = ''wf''"
  by code_simp

lemma orch_AB_workflow: "workflows orch_AB ''wf'' = Some wf_AB"
  by (simp add: orch_AB_def register_workflow_def Let_def wf_AB_id Orchestrator_init_def)

theorem acyclic_after_add_task_and_spawn_task_witness:
  "add_task (plain_task ''B'') [''A''] wf_A = (wf_AB, Inr ())
   \<and> acyclic (set (edges wf_AB))
   \<and> snd (spawn_task ''wf'' ''A'' (plain_task ''C'') [(''C'', ''B'')] PyNone False orch_AB) = Inr ()
   \<and> (\<exists>wfl'. workflows (fst (spawn_task ''wf'' ''A'' (plain_task ''C'') [(''C'', ''B'')] PyNone False
                               orch_AB)) ''wf'' = Some wfl'
        \<and> acyclic (set (edges wfl')))"
proof -
  let ?X = "spawn_task ''wf'' ''A'' (plain_task ''C'') [(''C'', ''B'')] PyNone False orch_AB"
  have "snd (add_task (plain_task ''B'') [''A''] wf_A) = Inr ()" by code_simp
  then have a: "add_task (plain_task ''B'') [''A''] wf_A = (wf_AB, Inr ())"
    by (simp add: wf_AB_def prod_eq_iff)
  have b: "snd ?X = Inr ()" by code_simp
  then have b': "?X = (fst ?X, Inr ())" by (simp add: prod_eq_iff)
  from acyclic_after_add_task_and_spawn_task
         [where task = "plain_task ''B''" and dependencies = "[''A'']" and wfl = wf_A
            and wfl' = wf_AB and w = "''wf''" and c = "''A''" and nt = "plain_task ''C''"
            and es = "[(''C'', ''B'')]" and inp = PyNone and skip = False and s = orch_AB
            and s' = "fst ?X"]
       a b b'
  show ?thesis by blast
qed

section \<open>The discovery pass\<close>

lemma truthy_outputs_Cons:
  "truthy_outputs w (p # ps) s =
     (case task_outputs s (w, p) of None \<Rightarrow> [] | Some v \<Rightarrow> if truthy v then [v] else [])
     @ truthy_outputs w ps s"
  by (simp add: truthy_outputs_def)

lemma collect_inputs_Inr:
  "collect_inputs w ps s ad ins = Inr (ad', ins') \<Longrightarrow>
     ad' = (ad \<and> (\<forall>p \<in> set ps. terminal w s p)) \<and> ins' = ins @ truthy_outputs w ps s
     \<and> (\<forall>p \<in> set ps. task_status s (w, p) \<noteq> None)"
proof (induction ps arbitrary: ad ins)
  case Nil
  then show ?case by (simp add: truthy_outputs_def)
next
  case (Cons p ps)
  from Cons.prems obtain st where st: "task_status s (w, p) = Some st"
    by (auto split: option.splits)
  let ?ad1 = "if st = Pending \<or> st = Running then False else ad"
  let ?ins1 = "case task_outputs s (w, p) of None \<Rightarrow> ins
               | Some p_output \<Rightarrow> if truthy p_output then ins @ [p_output] else ins"
  from Cons.prems st have "collect_inputs w ps s ?ad1 ?ins1 = Inr (ad', ins')" by simp
  from Cons.IH [OF this]
  have ad': "ad' = (?ad1 \<and> (\<forall>p \<in> set ps. terminal w s p))"
    and ins': "ins' = ?ins1 @ truthy_outputs w ps s"
    and defd: "\<forall>p \<in> set ps. task_status s (w, p) \<noteq> None" by blast+
  have t: "terminal w s p \<longleftrightarrow> \<not> (st = Pending \<or> st = Running)"
    using st status_cases [of st] by (auto simp: terminal_def)
  have "ad' = (ad \<and> (\<forall>q \<in> set (p # ps). terminal w s q))"
    using ad' t by auto
  moreover have "ins' = ins @ truthy_outputs w (p # ps) s"
    using ins' by (simp add: truthy_outputs_Cons split: option.splits)
  moreover have "\<forall>q \<in> set (p # ps). task_status s (w, q) \<noteq> None"
    using defd st by simp
  ultimately show ?case by blast
qed

lemma collect_inputs_total:
  "\<forall>p \<in> set ps. task_status s (w, p) \<noteq> None \<Longrightarrow> \<exists>x. collect_inputs w ps s ad ins = Inr x"
  by (induction ps arbitrary: ad ins) (auto split: option.splits)


lemma discover_Inr:
  "discover w es ts s acc = Inr nu \<Longrightarrow>
     nu = acc @ map (\<lambda>t. (t, PyList (truthy_outputs w (preds_of es t) s))) (filter (ready w es s) ts)"
proof (induction ts arbitrary: acc)
  case Nil
  then show ?case by simp
next
  case (Cons t ts)
  from Cons.prems obtain st where st: "task_status s (w, t) = Some st"
    by (auto split: option.splits)
  show ?case
  proof (cases "st = Pending")
    case False
    with Cons.prems st have "discover w es ts s acc = Inr nu" by simp
    from Cons.IH [OF this] False st show ?thesis by (simp add: ready_def)
  next
    case True
    with Cons.prems st obtain ad ins
      where ci: "collect_inputs w (preds_of es t) s True [] = Inr (ad, ins)"
        and rest: "discover w es ts s (if ad then acc @ [(t, PyList ins)] else acc) = Inr nu"
      by (auto split: sum.splits)
    from collect_inputs_Inr [OF ci]
    have ad: "ad = (\<forall>p \<in> set (preds_of es t). terminal w s p)"
      and ins: "ins = truthy_outputs w (preds_of es t) s" by simp_all
    from Cons.IH [OF rest] ad ins True st show ?thesis
      by (auto simp: ready_def)
  qed
qed


lemma discover_total:
  assumes "\<forall>t \<in> set ts. task_status s (w, t) \<noteq> None"
      and "\<forall>t \<in> set ts. \<forall>p \<in> set (preds_of es t). task_status s (w, p) \<noteq> None"
  shows "\<exists>nu. discover w es ts s acc = Inr nu"
  using assms
proof (induction ts arbitrary: acc)
  case Nil
  then show ?case by simp
next
  case (Cons t ts)
  from Cons.prems obtain st where st: "task_status s (w, t) = Some st" by auto
  from Cons.prems have "\<forall>p \<in> set (preds_of es t). task_status s (w, p) \<noteq> None" by simp
  from collect_inputs_total [OF this] obtain x
    where "collect_inputs w (preds_of es t) s True [] = Inr x" by blast
  with st Cons show ?case by (cases x) auto
qed


lemma truthy_outputs_filter:
  "truthy_outputs w ps s = filter truthy (List.map_filter (\<lambda>p. task_outputs s (w, p)) ps)"
  by (induction ps) (auto simp: truthy_outputs_Cons truthy_outputs_def split: option.splits)

section \<open>Input assembly\<close>

text \<open>
  Claim C8 as stated fails where a predecessor's output is neither absent nor empty but
  false for Python: in the workflow \<open>zero\<close> the task \<open>P\<close> ends done with output 0, and
  its successor \<open>C\<close> is dispatched with the inputs \<open>[]\<close>, where the claim gives \<open>[0]\<close>.
\<close>

theorem inputs_omit_zero_output_counterexample:
  "result_of run_zero = Some (Inr ())
   \<and> task_status (state_of run_zero) (''zero'', ''P'') = Some Done
   \<and> task_outputs (state_of run_zero) (''zero'', ''P'') = Some (PyInt 0)
   \<and> preds_of (edges wf_zero) ''C'' = [''P'']
   \<and> task_inputs (state_of run_zero) (''zero'', ''C'') = Some (PyList [])
   \<and> spec_assembled_inputs ''zero'' (preds_of (edges wf_zero) ''C'') (state_of run_zero) = [PyInt 0]"
  by code_simp

lemma enqueue_roots_queue:
  "enqueue_roots w es input_data ts s = (s', Inr ()) \<Longrightarrow> ready_queue s w = Some q \<Longrightarrow>
   ready_queue s' w =
     Some (q @ map (\<lambda>t. (t, case input_data t of None \<Rightarrow> PyList [] | Some v \<Rightarrow> v))
                  (filter (\<lambda>t. preds_of es t = []) ts))"
proof (induction ts arbitrary: s q)
  case Nil
  then show ?case by simp
next
  case (Cons t ts)
  show ?case
  proof (cases "preds_of es t = []")
    case False
    with Cons.prems have "enqueue_roots w es input_data ts s = (s', Inr ())" by simp
    from Cons.IH [OF this Cons.prems(2)] False show ?thesis by simp
  next
    case True
    let ?e = "(t, case input_data t of None \<Rightarrow> PyList [] | Some v \<Rightarrow> v)"
    let ?s1 = "s\<lparr> ready_queue := (ready_queue s)(w \<mapsto> q @ [?e]) \<rparr>"
    from Cons.prems True have "enqueue_roots w es input_data ts ?s1 = (s', Inr ())" by simp
    moreover have "ready_queue ?s1 w = Some (q @ [?e])" by simp
    ultimately have "ready_queue s' w =
       Some ((q @ [?e]) @ map (\<lambda>t. (t, case input_data t of None \<Rightarrow> PyList [] | Some v \<Rightarrow> v))
                  (filter (\<lambda>t. preds_of es t = []) ts))"
      by (rule Cons.IH)
    with True show ?thesis by simp
  qed
qed




section \<open>Dependency ordering\<close>




section \<open>Terminal statuses\<close>

text \<open>
  Claim C7 says that a status that is done or failed never changes again, also not by the
  handling of a failing task body. The handler in \<open>task_runner\<close> stores failed without
  looking at the status, unlike \<open>complete_task\<close>, \<open>spawn_parallel\<close> and
  \<open>fail_workflow\<close>: when the body of \<open>T\<close> has completed \<open>T\<close> through the orchestrator
  and then raises, the status of \<open>T\<close> is done when the exception leaves the body and
  failed when \<open>task_runner\<close> returns; the recorded output stays.
\<close>

theorem done_status_overwritten_by_failure:
  "task_status orch_sticky_dispatched (''sticky'', ''T'') = Some Running
   \<and> snd (exec (body_complete_then_raise ''sticky'' ''T'' (PyList [])) orch_sticky_dispatched)
       = Inl (UserError ''boom'')
   \<and> task_status (fst (exec (body_complete_then_raise ''sticky'' ''T'' (PyList []))
                          orch_sticky_dispatched)) (''sticky'', ''T'') = Some Done
   \<and> task_status (fst (spawn_parallel ''sticky'' ''T'' (PyList []) orch_sticky)) (''sticky'', ''T'')
       = Some Failed
   \<and> task_outputs (fst (spawn_parallel ''sticky'' ''T'' (PyList []) orch_sticky)) (''sticky'', ''T'')
       = Some (PyInt 1)
   \<and> result_of run_sticky = Some (Inr ())
   \<and> task_status (state_of run_sticky) (''sticky'', ''T'') = Some Failed
   \<and> task_outputs (state_of run_sticky) (''sticky'', ''T'') = Some (PyInt 1)"
  by code_simp

section \<open>What spawn_task leaves unchanged\<close>

lemma spawn_frame_refl: "spawn_frame w c nt s s"
  by (simp add: spawn_frame_def)

lemma map_of_append_Some: "map_of xs t = Some obj \<Longrightarrow> map_of (xs @ ys) t = Some obj"
  by (simp add: map_add_Some_iff)

lemma spawn_frame_mid:
  assumes adm: "spawn_admitted w c nt wfl cobj s" and cnt: "spawn_counts s (w, c) = Some cnt"
  shows "spawn_frame w c nt s
           (with_edges w (inserted_wfl c nt skip wfl) es1 (inserted w c nt skip wfl cnt s))"
proof -
  from adm have wfl: "workflows s w = Some wfl" and cobj: "map_of (tasks wfl) c = Some cobj"
    and fresh: "map_of (tasks wfl) (task_id nt) = None"
    and quota: "\<forall>q. max_spawn_count (constraints cobj) = Some q \<longrightarrow> cnt < q"
    using cnt by (auto simp: spawn_admitted_def)
  show ?thesis
    unfolding spawn_frame_def
  proof (intro conjI allI impI)
    fix w2 wfl2 assume "workflows s w2 = Some wfl2"
    then show "\<exists>wfl'. workflows (with_edges w (inserted_wfl c nt skip wfl) es1
                                  (inserted w c nt skip wfl cnt s)) w2 = Some wfl' \<and>
           (\<forall>t obj. map_of (tasks wfl2) t = Some obj \<longrightarrow> map_of (tasks wfl') t = Some obj)"
      using wfl by (cases "w2 = w") (auto simp: map_of_append_Some)
  next
    fix k
    show "task_status (with_edges w (inserted_wfl c nt skip wfl) es1
                                  (inserted w c nt skip wfl cnt s)) k = task_status s k
          \<or> ((task_status s k = Some Pending \<or> task_status s k = Some Running)
              \<and> task_status (with_edges w (inserted_wfl c nt skip wfl) es1
                                  (inserted w c nt skip wfl cnt s)) k = Some Failed)
          \<or> (\<exists>wfl. k = (w, task_id nt) \<and> workflows s w = Some wfl
                    \<and> map_of (tasks wfl) (task_id nt) = None)"
      using wfl fresh by auto
  next
    fix k
    show "spawn_counts (with_edges w (inserted_wfl c nt skip wfl) es1
                                  (inserted w c nt skip wfl cnt s)) k = spawn_counts s k
          \<or> (\<exists>wfl0. k = (w, task_id nt) \<and> workflows s w = Some wfl0
                    \<and> map_of (tasks wfl0) (task_id nt) = None
                    \<and> spawn_counts (with_edges w (inserted_wfl c nt skip wfl) es1
                                  (inserted w c nt skip wfl cnt s)) k = Some 0)
          \<or> (\<exists>wfl0 cobj cnt0. k = (w, c) \<and> workflows s w = Some wfl0
                    \<and> map_of (tasks wfl0) c = Some cobj \<and> spawn_counts s k = Some cnt0
                    \<and> spawn_counts (with_edges w (inserted_wfl c nt skip wfl) es1
                                  (inserted w c nt skip wfl cnt s)) k = Some (cnt0 + 1)
                    \<and> (\<forall>q. max_spawn_count (constraints cobj) = Some q \<longrightarrow> cnt0 < q))"
      using wfl fresh cobj cnt quota by auto
  qed simp_all
qed

lemma spawn_frame_partial:
  assumes adm: "spawn_admitted w c nt wfl cobj s"
  shows "spawn_frame w c nt s
           (s\<lparr> workflows := (workflows s)(w \<mapsto> wfl\<lparr> tasks := tasks wfl @ [(task_id nt, nt)] \<rparr>),
               task_status := (task_status s)((w, task_id nt) \<mapsto> Pending),
               spawn_counts := (spawn_counts s)((w, task_id nt) \<mapsto> 0) \<rparr>)"
proof -
  from adm have wfl: "workflows s w = Some wfl"
    and fresh: "map_of (tasks wfl) (task_id nt) = None"
    by (auto simp: spawn_admitted_def)
  show ?thesis
    unfolding spawn_frame_def
  proof (intro conjI allI impI)
    fix w2 wfl2 assume "workflows s w2 = Some wfl2"
    then show "\<exists>wfl'. workflows (s\<lparr> workflows := (workflows s)(w \<mapsto> wfl\<lparr> tasks := tasks wfl @ [(task_id nt, nt)] \<rparr>),
               task_status := (task_status s)((w, task_id nt) \<mapsto> Pending),
               spawn_counts := (spawn_counts s)((w, task_id nt) \<mapsto> 0) \<rparr>) w2 = Some wfl' \<and>
           (\<forall>t obj. map_of (tasks wfl2) t = Some obj \<longrightarrow> map_of (tasks wfl') t = Some obj)"
      using wfl by (cases "w2 = w") (auto simp: map_of_append_Some)
  qed (use wfl fresh in auto)
qed

lemma spawn_frame_fail:
  assumes fr: "spawn_frame w c nt s m" and fw: "fail_workflow w msg m = (s', r)"
  shows "spawn_frame w c nt s s'"
proof -
  from fail_workflow_frame [OF fw]
  have eq: "workflows s' = workflows m" "task_outputs s' = task_outputs m"
           "spawn_counts s' = spawn_counts m" "invocations s' = invocations m"
    and of: "only_fails w (task_status m) (task_status s')" by simp_all
  have st: "task_status s' k = task_status s k
          \<or> ((task_status s k = Some Pending \<or> task_status s k = Some Running)
              \<and> task_status s' k = Some Failed)
          \<or> (\<exists>wfl. k = (w, task_id nt) \<and> workflows s w = Some wfl
                    \<and> map_of (tasks wfl) (task_id nt) = None)" for k
  proof -
    have a: "task_status m k = task_status s k
          \<or> ((task_status s k = Some Pending \<or> task_status s k = Some Running)
              \<and> task_status m k = Some Failed)
          \<or> (\<exists>wfl. k = (w, task_id nt) \<and> workflows s w = Some wfl
                    \<and> map_of (tasks wfl) (task_id nt) = None)"
      using fr unfolding spawn_frame_def by blast
    have b: "task_status s' k = task_status m k \<or>
          ((task_status m k = Some Pending \<or> task_status m k = Some Running)
              \<and> task_status s' k = Some Failed)"
      using of unfolding only_fails_def by blast
    from a b show ?thesis by auto
  qed
  from fr st show ?thesis
    unfolding spawn_frame_def eq by blast
qed

lemma spawn_frame_after:
  assumes adm: "spawn_admitted w c nt wfl cobj s" and cnt: "spawn_counts s (w, c) = Some cnt"
  shows "spawn_frame w c nt s (after_spawn w c nt es inp skip wfl cnt s)"
proof -
  let ?mid = "with_edges w (inserted_wfl c nt skip wfl) es (inserted w c nt skip wfl cnt s)"
  have a: "invocations (after_spawn w c nt es inp skip wfl cnt s) = invocations ?mid"
          "task_outputs (after_spawn w c nt es inp skip wfl cnt s) = task_outputs ?mid"
          "workflows (after_spawn w c nt es inp skip wfl cnt s) = workflows ?mid"
          "task_status (after_spawn w c nt es inp skip wfl cnt s) = task_status ?mid"
          "spawn_counts (after_spawn w c nt es inp skip wfl cnt s) = spawn_counts ?mid"
    by (simp_all add: after_spawn_def Let_def)
  from spawn_frame_mid [OF adm cnt, of skip es] show ?thesis
    unfolding spawn_frame_def a .
qed

lemma after_spawn_spawned:
  "spawned (after_spawn w c nt es inp skip wfl cnt s) = spawned s @ [(w, c)]"
  "spawn_counts (after_spawn w c nt es inp skip wfl cnt s) (w, c) = Some (cnt + 1)"
  by (simp_all add: after_spawn_def Let_def)

text \<open>The frame of \<open>spawn_task\<close>, and what it does to the history of spawns.\<close>

lemma spawn_task_frame:
  assumes "spawn_task w c nt es inp skip s = (s', r)"
  shows "spawn_frame w c nt s s'"
    and "spawned s' = spawned s \<or>
         (r = Inr () \<and> spawned s' = spawned s @ [(w, c)] \<and>
          (\<exists>wfl cobj cnt. workflows s w = Some wfl \<and> map_of (tasks wfl) c = Some cobj \<and>
              spawn_counts s (w, c) = Some cnt \<and> spawn_counts s' (w, c) = Some (cnt + 1) \<and>
              (\<forall>q. max_spawn_count (constraints cobj) = Some q \<longrightarrow> cnt < q)))"
proof -
  have mid_sp: "spawned (with_edges w (inserted_wfl c nt skip wfl) es1
                           (inserted w c nt skip wfl cnt s)) = spawned s" for wfl es1 cnt
    by simp
  have fw_sp: "spawned s2 = spawned m" if "fail_workflow w msg m = (s2, r2)"
    for msg m s2 and r2 :: "exn + unit"
    using fail_workflow_frame [OF that] by simp
  from spawn_task_cases [OF assms]
  have "spawn_frame w c nt s s' \<and>
        (spawned s' = spawned s \<or>
         (r = Inr () \<and> spawned s' = spawned s @ [(w, c)] \<and>
          (\<exists>wfl cobj cnt. workflows s w = Some wfl \<and> map_of (tasks wfl) c = Some cobj \<and>
              spawn_counts s (w, c) = Some cnt \<and> spawn_counts s' (w, c) = Some (cnt + 1) \<and>
              (\<forall>q. max_spawn_count (constraints cobj) = Some q \<longrightarrow> cnt < q))))"
  proof (elim disjE conjE exE)
    assume "s' = s" "workflows s w = None"
    then show ?thesis by (simp add: spawn_frame_refl)
  next
    fix wfl cobj
    assume "s' = s" "workflows s w = Some wfl"
    then show ?thesis by (simp add: spawn_frame_refl)
  next
    fix m assume a: "fail_workflow w m s = (s', r)"
    from spawn_frame_fail [OF spawn_frame_refl a] fw_sp [OF a] show ?thesis by simp
  next
    fix wfl cobj
    assume "spawn_admitted w c nt wfl cobj s"
       "s' = s\<lparr> workflows := (workflows s)(w \<mapsto> wfl\<lparr> tasks := tasks wfl @ [(task_id nt, nt)] \<rparr>),
                      task_status := (task_status s)((w, task_id nt) \<mapsto> Pending),
                      spawn_counts := (spawn_counts s)((w, task_id nt) \<mapsto> 0) \<rparr>"
    then show ?thesis using spawn_frame_partial by simp
  next
    fix wfl cobj cnt es1 e es2
    assume "spawn_admitted w c nt wfl cobj s" "spawn_counts s (w, c) = Some cnt"
      "s' = with_edges w (inserted_wfl c nt skip wfl) es1 (inserted w c nt skip wfl cnt s)"
    then show ?thesis using spawn_frame_mid by simp
  next
    fix wfl cobj cnt es1 e es2 m
    assume a: "spawn_admitted w c nt wfl cobj s" "spawn_counts s (w, c) = Some cnt"
      "fail_workflow w m (with_edges w (inserted_wfl c nt skip wfl) es1
          (inserted w c nt skip wfl cnt s)) = (s', r)"
    from spawn_frame_fail [OF spawn_frame_mid [OF a(1,2)] a(3)] fw_sp [OF a(3)]
    show ?thesis by simp
  next
    fix wfl cobj cnt
    assume a: "spawn_admitted w c nt wfl cobj s" "spawn_counts s (w, c) = Some cnt"
      "fail_workflow w ''spawn_task caused cycle'' (with_edges w (inserted_wfl c nt skip wfl) es
          (inserted w c nt skip wfl cnt s)) = (s', r)"
    from spawn_frame_fail [OF spawn_frame_mid [OF a(1,2)] a(3)] fw_sp [OF a(3)]
    show ?thesis by simp
  next
    fix wfl cobj cnt
    assume "spawn_admitted w c nt wfl cobj s" "spawn_counts s (w, c) = Some cnt"
      "s' = with_edges w (inserted_wfl c nt skip wfl) es (inserted w c nt skip wfl cnt s)"
    then show ?thesis using spawn_frame_mid by simp
  next
    fix wfl cobj cnt
    assume a: "spawn_admitted w c nt wfl cobj s" "spawn_counts s (w, c) = Some cnt"
      "r = Inr ()" "s' = after_spawn w c nt es inp skip wfl cnt s"
    from a(1) a(2) have "workflows s w = Some wfl" "map_of (tasks wfl) c = Some cobj"
      "\<forall>q. max_spawn_count (constraints cobj) = Some q \<longrightarrow> cnt < q"
      by (auto simp: spawn_admitted_def)
    with a spawn_frame_after [OF a(1,2), of es inp skip] show ?thesis
      by (auto simp: after_spawn_spawned)
  qed
  then show "spawn_frame w c nt s s'"
    and "spawned s' = spawned s \<or>
         (r = Inr () \<and> spawned s' = spawned s @ [(w, c)] \<and>
          (\<exists>wfl cobj cnt. workflows s w = Some wfl \<and> map_of (tasks wfl) c = Some cobj \<and>
              spawn_counts s (w, c) = Some cnt \<and> spawn_counts s' (w, c) = Some (cnt + 1) \<and>
              (\<forall>q. max_spawn_count (constraints cobj) = Some q \<longrightarrow> cnt < q)))"
    by blast+
qed

section \<open>Stable properties hold throughout a run\<close>

lemma run_stableD:
  assumes "run_stable P" and "P s"
  shows "P (fst (spawn_task w c nt es inp skip s))"
    and "P (fst (complete_task w t v s))"
    and "P (s\<lparr> ready_queue := q \<rparr>)"
    and "P (s\<lparr> execution_history := h \<rparr>)"
    and "P (s\<lparr> visualization_counter := vc \<rparr>)"
    and "P (s\<lparr> running_loops := rl \<rparr>)"
    and "P (s\<lparr> task_inputs := i \<rparr>)"
    and "P (s\<lparr> task_status := (task_status s)(k \<mapsto> Failed) \<rparr>)"
    and "P (s\<lparr> early := el \<rparr>)"
proof -
  note d = assms(1) [unfolded run_stable_def]
  show "P (fst (spawn_task w c nt es inp skip s))"
    by (rule d [THEN conjunct1, rule_format, OF assms(2)])
  note d = d [THEN conjunct2]
  show "P (fst (complete_task w t v s))"
    by (rule d [THEN conjunct1, rule_format, OF assms(2)])
  note d = d [THEN conjunct2]
  show "P (s\<lparr> ready_queue := q \<rparr>)"
    by (rule d [THEN conjunct1, rule_format, OF assms(2)])
  note d = d [THEN conjunct2]
  show "P (s\<lparr> execution_history := h \<rparr>)"
    by (rule d [THEN conjunct1, rule_format, OF assms(2)])
  note d = d [THEN conjunct2]
  show "P (s\<lparr> visualization_counter := vc \<rparr>)"
    by (rule d [THEN conjunct1, rule_format, OF assms(2)])
  note d = d [THEN conjunct2]
  show "P (s\<lparr> running_loops := rl \<rparr>)"
    by (rule d [THEN conjunct1, rule_format, OF assms(2)])
  note d = d [THEN conjunct2]
  show "P (s\<lparr> task_inputs := i \<rparr>)"
    by (rule d [THEN conjunct1, rule_format, OF assms(2)])
  note d = d [THEN conjunct2]
  show "P (s\<lparr> task_status := (task_status s)(k \<mapsto> Failed) \<rparr>)"
    by (rule d [THEN conjunct1, rule_format, OF assms(2)])
  note d = d [THEN conjunct2, THEN conjunct2]
  show "P (s\<lparr> early := el \<rparr>)"
    by (rule d [rule_format, OF assms(2)])
qed

lemma run_stable_dispatch:
  assumes "run_stable P" and "P s" and "task_status s (w, t) = Some Pending"
      and "workflows s w = Some wfl" and "map_of (tasks wfl) t = Some obj"
  shows "P (s\<lparr> task_status := (task_status s)((w, t) \<mapsto> Running),
               invocations := invocations s @ [(w, t)] \<rparr>)"
  by (rule assms(1) [unfolded run_stable_def, THEN conjunct2, THEN conjunct2, THEN conjunct2,
        THEN conjunct2, THEN conjunct2, THEN conjunct2, THEN conjunct2, THEN conjunct2,
        THEN conjunct1, rule_format, OF assms(2-5)])

lemma exec_stable:
  assumes "run_stable P"
  shows "P s \<Longrightarrow> P (fst (exec p s))"
proof (induction p arbitrary: s)
  case (Return v)
  then show ?case by simp
next
  case (Raise e)
  then show ?case by simp
next
  case (SpawnTask w c nt es inp skip k)
  obtain s1 r1 where sp: "spawn_task w c nt es inp skip s = (s1, r1)"
    by (cases "spawn_task w c nt es inp skip s") auto
  from run_stableD(1) [OF assms SpawnTask.prems, of w c nt es inp skip] sp have "P s1" by simp
  then have "P (fst (exec (k r1) s1))" by (rule SpawnTask.IH [OF rangeI])
  with sp show ?case by simp
next
  case (CompleteTask w t v k)
  obtain s1 r1 where ct: "complete_task w t v s = (s1, r1)"
    by (cases "complete_task w t v s") auto
  from run_stableD(2) [OF assms CompleteTask.prems, of w t v] ct have "P s1" by simp
  then have "P (fst (exec (k r1) s1))" by (rule CompleteTask.IH [OF rangeI])
  with ct show ?case by simp
next
  case (CheckTaskStatus w t k)
  from CheckTaskStatus.IH [OF rangeI CheckTaskStatus.prems] show ?case by simp
qed

lemma spawn_parallel_stable:
  assumes st: "run_stable P" and P: "P s"
  shows "P (fst (spawn_parallel w t inputs s))"
proof (cases "task_status s (w, t) = Some Pending")
  case False
  with P show ?thesis by (auto simp: spawn_parallel_def split: option.splits)
next
  case pend: True
  let ?s0 = "s\<lparr> task_status := (task_status s)((w, t) \<mapsto> Running),
                task_inputs := (task_inputs s)((w, t) \<mapsto> inputs) \<rparr>"
  have sp: "spawn_parallel w t inputs s = task_runner w t inputs ?s0"
    using pend by (simp add: spawn_parallel_def)
  have failed0: "P (?s0\<lparr> task_status := (task_status ?s0)((w, t) \<mapsto> Failed) \<rparr>)"
  proof -
    have "P (s\<lparr> task_inputs := (task_inputs s)((w, t) \<mapsto> inputs) \<rparr>)"
      by (rule run_stableD(7) [OF st P])
    from run_stableD(8) [OF st this, of "(w, t)"] show ?thesis by simp
  qed
  show ?thesis
  proof (cases "workflows s w")
    case None
    with failed0 show ?thesis unfolding sp by (simp add: task_runner_def)
  next
    case (Some wfl)
    show ?thesis
    proof (cases "map_of (tasks wfl) t")
      case None
      with Some failed0 show ?thesis unfolding sp by (simp add: task_runner_def)
    next
      case obj: (Some obj)
      define el where "el = early ?s0 @ map (\<lambda>p. (w, p, t))
                    (filter (\<lambda>p. task_status ?s0 (w, p) \<noteq> Some Done \<and>
                                 task_status ?s0 (w, p) \<noteq> Some Failed)
                       (preds_of (edges wfl) t))"
      let ?s1 = "?s0\<lparr> invocations := invocations ?s0 @ [(w, t)], early := el \<rparr>"
      have "P (s\<lparr> task_status := (task_status s)((w, t) \<mapsto> Running),
               invocations := invocations s @ [(w, t)] \<rparr>)"
        by (rule run_stable_dispatch [OF st P pend Some obj])
      from run_stableD(7) [OF st this, of "(task_inputs s)((w, t) \<mapsto> inputs)"]
      have "P ((s\<lparr> task_status := (task_status s)((w, t) \<mapsto> Running),
               invocations := invocations s @ [(w, t)] \<rparr>)
                 \<lparr> task_inputs := (task_inputs s)((w, t) \<mapsto> inputs) \<rparr>)" .
      from run_stableD(9) [OF st this, of el]
      have "P ((s\<lparr> task_status := (task_status s)((w, t) \<mapsto> Running),
               invocations := invocations s @ [(w, t)] \<rparr>)
                 \<lparr> task_inputs := (task_inputs s)((w, t) \<mapsto> inputs) \<rparr>\<lparr> early := el \<rparr>)" .
      moreover have "(s\<lparr> task_status := (task_status s)((w, t) \<mapsto> Running),
               invocations := invocations s @ [(w, t)] \<rparr>)
                 \<lparr> task_inputs := (task_inputs s)((w, t) \<mapsto> inputs) \<rparr>\<lparr> early := el \<rparr> = ?s1"
        by simp
      ultimately have P1: "P ?s1" by simp
      obtain s2 r2 where ex: "exec (func obj w t inputs) ?s1 = (s2, r2)"
        by (cases "exec (func obj w t inputs) ?s1") auto
      from exec_stable [OF st P1, of "func obj w t inputs"] ex have P2: "P s2" by simp
      note ex = ex [unfolded el_def]
      show ?thesis
      proof (cases r2)
        case (Inl e)
        with Some obj ex run_stableD(8) [OF st P2, of "(w, t)"] show ?thesis
          unfolding sp by (simp add: task_runner_def)
      next
        case (Inr res)
        obtain s3 r3 where ct: "complete_task w t res s2 = (s3, r3)"
          by (cases "complete_task w t res s2") auto
        from run_stableD(2) [OF st P2, of w t res] ct have P3: "P s3" by simp
        from Some obj ex Inr ct P3 run_stableD(8) [OF st P3, of "(w, t)"] show ?thesis
          unfolding sp by (cases r3) (simp_all add: task_runner_def)
      qed
    qed
  qed
qed

lemma visualize_stable:
  assumes "run_stable P" and "P s"
  shows "P (fst (visualize w s))"
proof -
  have "P (s\<lparr> visualization_counter := vc \<rparr>)" for vc
    by (rule run_stableD(5) [OF assms])
  with assms(2) show ?thesis
    by (auto simp: visualize_def split: option.splits sum.splits)
qed

lemma enqueue_unblocked_stable:
  assumes "run_stable P"
  shows "P s \<Longrightarrow> P (fst (enqueue_unblocked w step nu s))"
proof (induction nu arbitrary: s)
  case Nil
  then show ?case by simp
next
  case (Cons x nu)
  obtain tid inputs where x: "x = (tid, inputs)" by (cases x)
  show ?case
  proof (cases "ready_queue s w")
    case None
    with Cons.prems x show ?thesis by simp
  next
    case (Some q)
    let ?s1 = "s\<lparr> ready_queue := (ready_queue s)(w \<mapsto> q @ [(tid, inputs)]),
                execution_history := (execution_history s)((w, tid) \<mapsto> step) \<rparr>"
    have "P (s\<lparr> ready_queue := (ready_queue s)(w \<mapsto> q @ [(tid, inputs)]) \<rparr>)"
      by (rule run_stableD(3) [OF assms Cons.prems])
    from run_stableD(4) [OF assms this, of "(execution_history s)((w, tid) \<mapsto> step)"]
    have "P ?s1" by simp
    from Cons.IH [OF this] Some x show ?thesis by simp
  qed
qed

lemma enqueue_roots_stable:
  assumes "run_stable P"
  shows "P s \<Longrightarrow> P (fst (enqueue_roots w es input_data ts s))"
proof (induction ts arbitrary: s)
  case Nil
  then show ?case by simp
next
  case (Cons t ts)
  show ?case
  proof (cases "preds_of es t = []")
    case False
    with Cons show ?thesis by simp
  next
    case True
    show ?thesis
    proof (cases "ready_queue s w")
      case None
      with Cons.prems True show ?thesis by simp
    next
      case (Some q)
      have "P (s\<lparr> ready_queue := (ready_queue s)
              (w \<mapsto> q @ [(t, case input_data t of None \<Rightarrow> PyList [] | Some v \<Rightarrow> v)]) \<rparr>)"
        by (rule run_stableD(3) [OF assms Cons.prems])
      from Cons.IH [OF this] True Some show ?thesis by simp
    qed
  qed
qed

lemma drain_queue_unfold:
  "drain_queue fuel w s =
     (case ready_queue s w of
        None \<Rightarrow> Some (s, Inl KeyError)
      | Some [] \<Rightarrow> Some (s, Inr ())
      | Some ((tid, inputs) # q) \<Rightarrow>
          (case fuel of
             0 \<Rightarrow> None
           | Suc fuel' \<Rightarrow>
               (case spawn_parallel w tid inputs (s\<lparr> ready_queue := (ready_queue s)(w \<mapsto> q) \<rparr>) of
                  (s1, Inl e) \<Rightarrow> Some (s1, Inl e)
                | (s1, Inr _) \<Rightarrow>
                    (case visualize w s1 of
                       (s2, Inl e) \<Rightarrow> Some (s2, Inl e)
                     | (s2, Inr _) \<Rightarrow> drain_queue fuel' w s2))))"
  by (rule drain_queue.simps)

lemma drain_queue_None: "ready_queue s w = None \<Longrightarrow> drain_queue fuel w s = Some (s, Inl KeyError)"
  by (subst drain_queue_unfold) simp

lemma drain_queue_Nil: "ready_queue s w = Some [] \<Longrightarrow> drain_queue fuel w s = Some (s, Inr ())"
  by (subst drain_queue_unfold) simp

lemma drain_queue_0: "ready_queue s w = Some (x # q) \<Longrightarrow> drain_queue 0 w s = None"
  by (subst drain_queue_unfold) (simp split: prod.splits)

lemma drain_queue_Suc:
  assumes "ready_queue s w = Some ((tid, inputs) # q)"
      and "spawn_parallel w tid inputs (s\<lparr> ready_queue := (ready_queue s)(w \<mapsto> q) \<rparr>) = (s1, r1)"
      and "visualize w s1 = (s2, r2)"
  shows "drain_queue (Suc fuel) w s =
           (case r1 of Inl e \<Rightarrow> Some (s1, Inl e)
            | Inr _ \<Rightarrow> (case r2 of Inl e \<Rightarrow> Some (s2, Inl e) | Inr _ \<Rightarrow> drain_queue fuel w s2))"
  using assms by (subst drain_queue_unfold) (simp split: sum.splits)

lemma drain_queue_stable:
  assumes "run_stable P"
  shows "P s \<Longrightarrow> drain_queue fuel w s = Some (s', r) \<Longrightarrow> P s'"
proof (induction fuel arbitrary: s)
  case 0
  show ?case
  proof (cases "ready_queue s w")
    case None
    with 0 show ?thesis by (simp add: drain_queue_None)
  next
    case (Some queue)
    with 0 show ?thesis by (cases queue) (simp_all add: drain_queue_Nil drain_queue_0)
  qed
next
  case (Suc fuel)
  show ?case
  proof (cases "ready_queue s w")
    case None
    with Suc.prems show ?thesis by (simp add: drain_queue_None)
  next
    case (Some queue)
    show ?thesis
    proof (cases queue)
      case Nil
      with Some Suc.prems show ?thesis by (simp add: drain_queue_Nil)
    next
      case (Cons x q)
      obtain tid inputs where x: "x = (tid, inputs)" by (cases x)
      let ?s0 = "s\<lparr> ready_queue := (ready_queue s)(w \<mapsto> q) \<rparr>"
      have P0: "P ?s0" by (rule run_stableD(3) [OF assms Suc.prems(1)])
      obtain s1 r1 where sp: "spawn_parallel w tid inputs ?s0 = (s1, r1)"
        by (cases "spawn_parallel w tid inputs ?s0") auto
      from spawn_parallel_stable [OF assms P0, of w tid inputs] sp have P1: "P s1" by simp
      obtain s2 r2 where vi: "visualize w s1 = (s2, r2)"
        by (cases "visualize w s1") auto
      from visualize_stable [OF assms P1, of w] vi have P2: "P s2" by simp
      have q: "ready_queue s w = Some ((tid, inputs) # q)" using Some Cons x by simp
      from Suc.prems(2) have
        *: "(case r1 of Inl e \<Rightarrow> Some (s1, Inl e)
             | Inr _ \<Rightarrow> (case r2 of Inl e \<Rightarrow> Some (s2, Inl e)
                          | Inr _ \<Rightarrow> drain_queue fuel w s2)) = Some (s', r)"
        unfolding drain_queue_Suc [OF q sp vi] .
      show ?thesis
      proof (cases r1)
        case (Inl e)
        with * P1 show ?thesis by simp
      next
        case r1: (Inr u)
        show ?thesis
        proof (cases r2)
          case (Inl e)
          with * r1 P2 show ?thesis by simp
        next
          case (Inr u2)
          with * r1 have "drain_queue fuel w s2 = Some (s', r)" by simp
          from Suc.IH [OF P2 this] show ?thesis .
        qed
      qed
    qed
  qed
qed

lemma run_helper_stable:
  assumes "run_stable P" and "P s" and "run_helper fuel w s = Some (s', r)"
  shows "P s'"
proof (cases "workflows s w")
  case None
  with assms show ?thesis by (simp add: run_helper_def)
next
  case wfl: (Some wfl)
  show ?thesis
  proof (cases "max_list (map (\<lambda>tid. case execution_history s (w, tid) of None \<Rightarrow> 0 | Some k \<Rightarrow> k)
                        (map fst (tasks wfl)))")
    case (Inl e)
    with assms wfl show ?thesis by (simp add: run_helper_def)
  next
    case m: (Inr m)
    show ?thesis
    proof (cases "discover w (edges wfl) (map fst (tasks wfl)) s []")
      case (Inl e)
      with assms wfl m show ?thesis by (simp add: run_helper_def)
    next
      case nu: (Inr nu)
      obtain s1 r1 where eu: "enqueue_unblocked w (m + 1) nu s = (s1, r1)"
        by (cases "enqueue_unblocked w (m + 1) nu s") auto
      from enqueue_unblocked_stable [OF assms(1,2), of w "m + 1" nu] eu have P1: "P s1" by simp
      show ?thesis
      proof (cases r1)
        case (Inl e)
        with assms(3) wfl m nu eu P1 show ?thesis by (simp add: run_helper_def)
      next
        case (Inr u)
        with assms(3) wfl m nu eu have "drain_queue fuel w s1 = Some (s', r)"
          by (simp add: run_helper_def)
        from drain_queue_stable [OF assms(1) P1 this] show ?thesis .
      qed
    qed
  qed
qed

lemma run_loop_stable:
  assumes "run_stable P"
  shows "P s \<Longrightarrow> run_loop fuel w s = Some (s', r) \<Longrightarrow> P s'"
proof (induction fuel arbitrary: s)
  case 0
  then show ?case by simp
next
  case (Suc fuel)
  from Suc.prems(2) obtain s1 r1 where rh: "run_helper fuel w s = Some (s1, r1)"
    by (cases "run_helper fuel w s") auto
  from run_helper_stable [OF assms Suc.prems(1) rh] have P1: "P s1" .
  show ?case
  proof (cases r1)
    case (Inl e)
    with Suc.prems(2) rh P1 show ?thesis by simp
  next
    case (Inr u)
    show ?thesis
    proof (cases "workflows s1 w")
      case None
      with Suc.prems(2) rh Inr P1 show ?thesis by simp
    next
      case (Some wfl)
      show ?thesis
      proof (cases "statuses w (map fst (tasks wfl)) s1")
        case (Inl e)
        with Suc.prems(2) rh Inr Some P1 show ?thesis by simp
      next
        case sts: (Inr sts)
        show ?thesis
        proof (cases "list_all (\<lambda>st. st = Done \<or> st = Failed) sts")
          case True
          with Suc.prems(2) rh Inr Some sts
          have "s' = s1\<lparr> running_loops := (running_loops s1)(w \<mapsto> False) \<rparr>" by simp
          with run_stableD(6) [OF assms P1] show ?thesis by simp
        next
          case False
          with Suc.prems(2) rh Inr Some sts have "run_loop fuel w s1 = Some (s', r)" by simp
          from Suc.IH [OF P1 this] show ?thesis .
        qed
      qed
    qed
  qed
qed

lemma run_workflow_stable:
  assumes "run_stable P" and "P s" and "run_workflow fuel w input_data s = Some (s', r)"
  shows "P s'"
proof (cases "workflows s w")
  case None
  with assms show ?thesis by (simp add: run_workflow_def)
next
  case (Some wfl)
  show ?thesis
  proof (cases "running_loops s w")
    case None
    with assms Some show ?thesis by (simp add: run_workflow_def)
  next
    case rl: (Some b)
    show ?thesis
    proof (cases b)
      case True
      with assms Some rl show ?thesis by (simp add: run_workflow_def)
    next
      case False
      let ?s0 = "s\<lparr> running_loops := (running_loops s)(w \<mapsto> True) \<rparr>"
      obtain s1 r1 where er: "enqueue_roots w (edges wfl) input_data (map fst (tasks wfl)) ?s0 = (s1, r1)"
        by (cases "enqueue_roots w (edges wfl) input_data (map fst (tasks wfl)) ?s0") auto
      from enqueue_roots_stable [OF assms(1) run_stableD(6) [OF assms(1,2)],
             of w "edges wfl" input_data "map fst (tasks wfl)" "(running_loops s)(w \<mapsto> True)"] er
      have P1: "P s1" by simp
      show ?thesis
      proof (cases r1)
        case (Inl e)
        with assms(3) Some rl False er P1 show ?thesis by (simp add: run_workflow_def)
      next
        case (Inr u)
        with assms(3) Some rl False er have "run_loop fuel w s1 = Some (s', r)"
          by (simp add: run_workflow_def)
        from run_loop_stable [OF assms(1) P1 this] show ?thesis .
      qed
    qed
  qed
qed

section \<open>The two history invariants\<close>

lemma complete_task_cases:
  "complete_task w t v s = (s, Inl KeyError) \<and> task_status s (w, t) = None
   \<or> complete_task w t v s = (s, Inr ()) \<and>
       (task_status s (w, t) = Some Done \<or> task_status s (w, t) = Some Failed)
   \<or> complete_task w t v s =
        (s\<lparr> task_status := (task_status s)((w, t) \<mapsto> Done),
            task_outputs := (task_outputs s)((w, t) \<mapsto> v) \<rparr>, Inr ()) \<and>
       (task_status s (w, t) = Some Pending \<or> task_status s (w, t) = Some Running)"
proof (cases "task_status s (w, t)")
  case None
  then show ?thesis by (simp add: complete_task_def)
next
  case (Some st)
  then show ?thesis using status_cases [of st] by (auto simp: complete_task_def)
qed

lemma invoked_inv_frame:
  assumes fr: "spawn_frame w c nt s s'" and inv: "invoked_inv s"
  shows "invoked_inv s'"
proof -
  from fr have i: "invocations s' = invocations s"
    and wf: "\<And>w2 wfl. workflows s w2 = Some wfl \<Longrightarrow>
        \<exists>wfl'. workflows s' w2 = Some wfl' \<and>
           (\<forall>t obj. map_of (tasks wfl) t = Some obj \<longrightarrow> map_of (tasks wfl') t = Some obj)"
    and st: "\<And>k. task_status s' k = task_status s k
          \<or> ((task_status s k = Some Pending \<or> task_status s k = Some Running)
              \<and> task_status s' k = Some Failed)
          \<or> (\<exists>wfl. k = (w, task_id nt) \<and> workflows s w = Some wfl
                    \<and> map_of (tasks wfl) (task_id nt) = None)"
    unfolding spawn_frame_def by blast+
  have "(\<exists>wfl obj. workflows s' (fst k) = Some wfl \<and> map_of (tasks wfl) (snd k) = Some obj) \<and>
        (task_status s' k = Some Running \<or> task_status s' k = Some Done
         \<or> task_status s' k = Some Failed)"
    if k: "k \<in> set (invocations s)" for k
  proof -
    from inv k obtain wfl obj where a: "workflows s (fst k) = Some wfl"
      "map_of (tasks wfl) (snd k) = Some obj"
      and b: "task_status s k = Some Running \<or> task_status s k = Some Done
         \<or> task_status s k = Some Failed"
      unfolding invoked_inv_def by blast
    from wf [OF a(1)] a(2) have 1: "\<exists>wfl obj. workflows s' (fst k) = Some wfl \<and>
        map_of (tasks wfl) (snd k) = Some obj" by blast
    have "\<not> (\<exists>wfl. k = (w, task_id nt) \<and> workflows s w = Some wfl
                    \<and> map_of (tasks wfl) (task_id nt) = None)"
      using a by auto
    with st [of k] b have 2: "task_status s' k = Some Running \<or> task_status s' k = Some Done
         \<or> task_status s' k = Some Failed" by auto
    from 1 2 show ?thesis by blast
  qed
  with inv i show ?thesis unfolding invoked_inv_def by simp
qed

lemma invoked_inv_complete:
  assumes "invoked_inv s"
  shows "invoked_inv (fst (complete_task w t v s))"
  using complete_task_cases [of w t v s] assms
  by (elim disjE conjE) (auto simp: invoked_inv_def)

lemma invoked_inv_dispatch:
  assumes inv: "invoked_inv s" and pend: "task_status s (w, t) = Some Pending"
      and wfl: "workflows s w = Some wfl" and obj: "map_of (tasks wfl) t = Some obj"
  shows "invoked_inv (s\<lparr> task_status := (task_status s)((w, t) \<mapsto> Running),
               invocations := invocations s @ [(w, t)] \<rparr>)"
proof -
  have "(w, t) \<notin> set (invocations s)"
    using inv pend unfolding invoked_inv_def by force
  with inv wfl obj show ?thesis
    unfolding invoked_inv_def by auto
qed

lemma run_stable_invoked_inv: "run_stable invoked_inv"
  unfolding run_stable_def
proof (intro conjI allI impI)
  fix s w c nt es inp skip assume "invoked_inv s"
  moreover have "spawn_frame w c nt s (fst (spawn_task w c nt es inp skip s))"
    by (rule spawn_task_frame(1) [of w c nt es inp skip s _ "snd (spawn_task w c nt es inp skip s)"]) simp
  ultimately show "invoked_inv (fst (spawn_task w c nt es inp skip s))"
    using invoked_inv_frame by blast
next
  fix s w t v assume "invoked_inv s"
  then show "invoked_inv (fst (complete_task w t v s))" by (rule invoked_inv_complete)
next
  fix s w t wfl obj
  assume "invoked_inv s" "task_status s (w, t) = Some Pending" "workflows s w = Some wfl"
    "map_of (tasks wfl) t = Some obj"
  then show "invoked_inv (s\<lparr> task_status := (task_status s)((w, t) \<mapsto> Running),
               invocations := invocations s @ [(w, t)] \<rparr>)"
    by (rule invoked_inv_dispatch)
qed (auto simp: invoked_inv_def)

lemma quota_inv_spawn:
  assumes run: "spawn_task w c nt es inp skip s = (s', r)" and inv: "quota_inv s"
  shows "quota_inv s'"
proof -
  from spawn_task_frame [OF run]
  have fr: "spawn_frame w c nt s s'"
    and sp: "spawned s' = spawned s \<or>
         (r = Inr () \<and> spawned s' = spawned s @ [(w, c)] \<and>
          (\<exists>wfl cobj cnt. workflows s w = Some wfl \<and> map_of (tasks wfl) c = Some cobj \<and>
              spawn_counts s (w, c) = Some cnt \<and> spawn_counts s' (w, c) = Some (cnt + 1) \<and>
              (\<forall>q. max_spawn_count (constraints cobj) = Some q \<longrightarrow> cnt < q)))"
    by blast+
  from fr have wf: "\<And>w2 wfl. workflows s w2 = Some wfl \<Longrightarrow>
        \<exists>wfl'. workflows s' w2 = Some wfl' \<and>
           (\<forall>t obj. map_of (tasks wfl) t = Some obj \<longrightarrow> map_of (tasks wfl') t = Some obj)"
    and sc: "\<And>k. spawn_counts s' k = spawn_counts s k
          \<or> (\<exists>wfl. k = (w, task_id nt) \<and> workflows s w = Some wfl
                    \<and> map_of (tasks wfl) (task_id nt) = None \<and> spawn_counts s' k = Some 0)
          \<or> (\<exists>wfl cobj cnt. k = (w, c) \<and> workflows s w = Some wfl
                    \<and> map_of (tasks wfl) c = Some cobj \<and> spawn_counts s k = Some cnt
                    \<and> spawn_counts s' k = Some (cnt + 1)
                    \<and> (\<forall>q. max_spawn_count (constraints cobj) = Some q \<longrightarrow> cnt < q))"
    unfolding spawn_frame_def by blast+
  from inv have nonneg: "\<And>k cnt. spawn_counts s k = Some cnt \<Longrightarrow> 0 \<le> cnt"
    and old: "\<And>k. k \<in> set (spawned s) \<Longrightarrow>
        \<exists>wfl obj cnt. workflows s (fst k) = Some wfl \<and> map_of (tasks wfl) (snd k) = Some obj \<and>
           spawn_counts s k = Some cnt \<and> int (count_list (spawned s) k) \<le> cnt \<and>
           (\<forall>q. max_spawn_count (constraints obj) = Some q \<longrightarrow> cnt \<le> q)"
    unfolding quota_inv_def by blast+
  have nonneg': "0 \<le> cnt" if "spawn_counts s' k = Some cnt" for k cnt
    using sc [of k] that nonneg [of k] by auto
  text \<open>A key that was in the history of spawns keeps its task, and its count does not fall.\<close>
  have keep: "\<exists>wfl obj cnt. workflows s' (fst k) = Some wfl \<and> map_of (tasks wfl) (snd k) = Some obj \<and>
           spawn_counts s' k = Some cnt \<and> int (count_list (spawned s) k) \<le> cnt \<and>
           (\<forall>q. max_spawn_count (constraints obj) = Some q \<longrightarrow> cnt \<le> q)"
    if k: "k \<in> set (spawned s)" for k
  proof -
    from old [OF k] obtain wfl obj cnt where a: "workflows s (fst k) = Some wfl"
      "map_of (tasks wfl) (snd k) = Some obj" "spawn_counts s k = Some cnt"
      "int (count_list (spawned s) k) \<le> cnt"
      "\<forall>q. max_spawn_count (constraints obj) = Some q \<longrightarrow> cnt \<le> q" by blast
    from wf [OF a(1)] a(2) obtain wfl' where b: "workflows s' (fst k) = Some wfl'"
      "map_of (tasks wfl') (snd k) = Some obj" by blast
    from sc [of k] show ?thesis
    proof (elim disjE exE conjE)
      assume "spawn_counts s' k = spawn_counts s k"
      with a b show ?thesis by auto
    next
      fix wfl0 assume "k = (w, task_id nt)" "workflows s w = Some wfl0"
        "map_of (tasks wfl0) (task_id nt) = None"
      with a show ?thesis by simp
    next
      fix wfl0 cobj cnt0
      assume c: "k = (w, c)" "workflows s w = Some wfl0" "map_of (tasks wfl0) c = Some cobj"
        "spawn_counts s k = Some cnt0" "spawn_counts s' k = Some (cnt0 + 1)"
        "\<forall>q. max_spawn_count (constraints cobj) = Some q \<longrightarrow> cnt0 < q"
      with a have "cobj = obj" "cnt0 = cnt" by simp_all
      with a b c show ?thesis by auto
    qed
  qed
  from sp show ?thesis
  proof
    assume same: "spawned s' = spawned s"
    show ?thesis
      unfolding quota_inv_def same using nonneg' keep by blast
  next
    assume "r = Inr () \<and> spawned s' = spawned s @ [(w, c)] \<and>
          (\<exists>wfl cobj cnt. workflows s w = Some wfl \<and> map_of (tasks wfl) c = Some cobj \<and>
              spawn_counts s (w, c) = Some cnt \<and> spawn_counts s' (w, c) = Some (cnt + 1) \<and>
              (\<forall>q. max_spawn_count (constraints cobj) = Some q \<longrightarrow> cnt < q))"
    then obtain wfl cobj cnt where app: "spawned s' = spawned s @ [(w, c)]"
      and a: "workflows s w = Some wfl" "map_of (tasks wfl) c = Some cobj"
        "spawn_counts s (w, c) = Some cnt" "spawn_counts s' (w, c) = Some (cnt + 1)"
        "\<forall>q. max_spawn_count (constraints cobj) = Some q \<longrightarrow> cnt < q" by blast
    from wf [OF a(1)] a(2) obtain wfl' where b: "workflows s' w = Some wfl'"
      "map_of (tasks wfl') c = Some cobj" by blast
    have cnt_le: "int (count_list (spawned s) (w, c)) \<le> cnt"
    proof (cases "(w, c) \<in> set (spawned s)")
      case True
      from old [OF this] a(3) show ?thesis by auto
    next
      case False
      then have "count_list (spawned s) (w, c) = 0" by (simp add: count_list_0_iff)
      with nonneg [OF a(3)] show ?thesis by simp
    qed
    have "\<exists>wfl obj cnt. workflows s' (fst k) = Some wfl \<and> map_of (tasks wfl) (snd k) = Some obj \<and>
           spawn_counts s' k = Some cnt \<and> int (count_list (spawned s') k) \<le> cnt \<and>
           (\<forall>q. max_spawn_count (constraints obj) = Some q \<longrightarrow> cnt \<le> q)"
      if k: "k \<in> set (spawned s')" for k
    proof (cases "k = (w, c)")
      case True
      have "int (count_list (spawned s') k) \<le> cnt + 1"
        using cnt_le True app by simp
      moreover have "\<forall>q. max_spawn_count (constraints cobj) = Some q \<longrightarrow> cnt + 1 \<le> q"
        using a(5) by auto
      ultimately show ?thesis using True a(4) b by auto
    next
      case False
      with k app have "k \<in> set (spawned s)" by auto
      from keep [OF this] False app show ?thesis by simp
    qed
    with nonneg' show ?thesis unfolding quota_inv_def by blast
  qed
qed

lemma run_stable_quota_inv: "run_stable quota_inv"
  unfolding run_stable_def
proof (intro conjI allI impI)
  fix s w c nt es inp skip assume "quota_inv s"
  then show "quota_inv (fst (spawn_task w c nt es inp skip s))"
    by (rule quota_inv_spawn [rotated]) (rule surjective_pairing)
next
  fix s w t v assume "quota_inv s"
  then show "quota_inv (fst (complete_task w t v s))"
    using complete_task_cases [of w t v s]
    by (elim disjE conjE) (auto simp: quota_inv_def)
qed (auto simp: quota_inv_def)

section \<open>The invariants hold in every reachable state\<close>

lemma fold_upd_key:
  "fold (\<lambda>t m. m((w, t) \<mapsto> v)) ts m k =
     (if fst k = w \<and> snd k \<in> set ts then Some v else m k)"
  by (induction ts arbitrary: m) (auto simp: prod_eq_iff)

lemma invoked_inv_init: "invoked_inv Orchestrator_init"
  by (simp add: invoked_inv_def Orchestrator_init_def)

lemma quota_inv_init: "quota_inv Orchestrator_init"
  by (simp add: quota_inv_def Orchestrator_init_def)

lemma invoked_inv_register:
  assumes "invoked_inv s"
  shows "invoked_inv (fst (register_workflow wfl s))"
proof (cases "workflows s (workflow_id wfl)")
  case (Some a)
  with assms show ?thesis by (simp add: register_workflow_def)
next
  case None
  have other: "fst k \<noteq> workflow_id wfl" if "k \<in> set (invocations s)" for k
    using assms that None unfolding invoked_inv_def by force
  show ?thesis
    using assms None other
    unfolding invoked_inv_def
    by (simp add: register_workflow_def Let_def fold_upd_key)
qed

lemma quota_inv_register:
  assumes "quota_inv s"
  shows "quota_inv (fst (register_workflow wfl s))"
proof (cases "workflows s (workflow_id wfl)")
  case (Some a)
  with assms show ?thesis by (simp add: register_workflow_def)
next
  case None
  have other: "fst k \<noteq> workflow_id wfl" if "k \<in> set (spawned s)" for k
    using assms that None unfolding quota_inv_def by force
  from assms have nonneg: "\<And>k cnt. spawn_counts s k = Some cnt \<Longrightarrow> 0 \<le> cnt"
    and old: "\<And>k. k \<in> set (spawned s) \<Longrightarrow>
        \<exists>wfl obj cnt. workflows s (fst k) = Some wfl \<and> map_of (tasks wfl) (snd k) = Some obj \<and>
           spawn_counts s k = Some cnt \<and> int (count_list (spawned s) k) \<le> cnt \<and>
           (\<forall>q. max_spawn_count (constraints obj) = Some q \<longrightarrow> cnt \<le> q)"
    unfolding quota_inv_def by blast+
  let ?s' = "fst (register_workflow wfl s)"
  have sp: "spawned ?s' = spawned s" using None by (simp add: register_workflow_def Let_def)
  have wf': "workflows ?s' = (workflows s)(workflow_id wfl \<mapsto> wfl)"
    using None by (simp add: register_workflow_def Let_def)
  have sc: "spawn_counts ?s' k =
      (if fst k = workflow_id wfl \<and> snd k \<in> set (map fst (tasks wfl)) then Some 0
       else spawn_counts s k)" for k
    using None by (simp add: register_workflow_def Let_def fold_upd_key)
  have 1: "0 \<le> cnt" if "spawn_counts ?s' k = Some cnt" for k cnt
    using that nonneg [of k cnt] by (auto simp: sc split: if_splits)
  have 2: "\<exists>wfl obj cnt. workflows ?s' (fst k) = Some wfl \<and> map_of (tasks wfl) (snd k) = Some obj \<and>
           spawn_counts ?s' k = Some cnt \<and> int (count_list (spawned ?s') k) \<le> cnt \<and>
           (\<forall>q. max_spawn_count (constraints obj) = Some q \<longrightarrow> cnt \<le> q)"
    if "k \<in> set (spawned ?s')" for k
  proof -
    from that have k: "k \<in> set (spawned s)" by (simp add: sp)
    from other [OF k] old [OF k] show ?thesis by (simp add: sp wf' sc)
  qed
  from 1 2 show ?thesis unfolding quota_inv_def by blast
qed

lemma reachable_invoked_inv: "reachable s \<Longrightarrow> invoked_inv s"
proof (induction rule: reachable.induct)
  case reachable_init
  show ?case by (rule invoked_inv_init)
next
  case (reachable_register s wfl)
  then show ?case by (simp add: invoked_inv_register)
next
  case (reachable_run s fuel w input_data s' r)
  from run_workflow_stable [OF run_stable_invoked_inv reachable_run.IH reachable_run.hyps(2)]
  show ?case .
next
  case (reachable_spawn s w c nt es inp skip)
  from run_stableD(1) [OF run_stable_invoked_inv reachable_spawn.IH] show ?case .
next
  case (reachable_complete s w t v)
  from run_stableD(2) [OF run_stable_invoked_inv reachable_complete.IH] show ?case .
qed

lemma reachable_quota_inv: "reachable s \<Longrightarrow> quota_inv s"
proof (induction rule: reachable.induct)
  case reachable_init
  show ?case by (rule quota_inv_init)
next
  case (reachable_register s wfl)
  then show ?case by (simp add: quota_inv_register)
next
  case (reachable_run s fuel w input_data s' r)
  from run_workflow_stable [OF run_stable_quota_inv reachable_run.IH reachable_run.hyps(2)]
  show ?case .
next
  case (reachable_spawn s w c nt es inp skip)
  from run_stableD(1) [OF run_stable_quota_inv reachable_spawn.IH] show ?case .
next
  case (reachable_complete s w t v)
  from run_stableD(2) [OF run_stable_quota_inv reachable_complete.IH] show ?case .
qed

section \<open>Dispatch\<close>


lemma task_runner_terminal: "terminal w (fst (task_runner w t inputs s)) t"
proof -
  have ct: "terminal w s2 t" if "complete_task w t res s1 = (s2, Inr x)" for res s1 s2 x
    using complete_task_cases [of w t res s1] that by (auto simp: terminal_def)
  show ?thesis
    by (auto simp: task_runner_def terminal_def split: option.splits prod.splits sum.splits
             dest: ct [unfolded terminal_def])
qed

lemma spawn_parallel_skip:
  "task_status s (w, t) = Some st \<Longrightarrow> st \<noteq> Pending \<Longrightarrow> spawn_parallel w t inputs s = (s, Inr ())"
  by (simp add: spawn_parallel_def)

lemma spawn_parallel_dispatch:
  "task_status s (w, t) = Some Pending \<Longrightarrow>
   spawn_parallel w t inputs s =
     task_runner w t inputs (s\<lparr> task_status := (task_status s)((w, t) \<mapsto> Running),
                                task_inputs := (task_inputs s)((w, t) \<mapsto> inputs) \<rparr>)"
  by (simp add: spawn_parallel_def)


lemma enqueue_unblocked_queue:
  "enqueue_unblocked w step nu s = (s', Inr ()) \<Longrightarrow> ready_queue s w = Some q \<Longrightarrow>
   ready_queue s' w = Some (q @ nu)"
proof (induction nu arbitrary: s q)
  case Nil
  then show ?case by simp
next
  case (Cons e nu)
  obtain tid inputs where e: "e = (tid, inputs)" by (cases e)
  let ?s1 = "s\<lparr> ready_queue := (ready_queue s)(w \<mapsto> q @ [(tid, inputs)]),
                execution_history := (execution_history s)((w, tid) \<mapsto> step) \<rparr>"
  from Cons.prems e have "enqueue_unblocked w step nu ?s1 = (s', Inr ())" by simp
  moreover have "ready_queue ?s1 w = Some (q @ [(tid, inputs)])" by simp
  ultimately have "ready_queue s' w = Some ((q @ [(tid, inputs)]) @ nu)" by (rule Cons.IH)
  with e show ?case by simp
qed

lemma enqueue_roots_status:
  "enqueue_roots w es input_data ts s = (s', r) \<Longrightarrow>
   task_status s' = task_status s \<and> task_outputs s' = task_outputs s"
proof (induction ts arbitrary: s)
  case Nil
  then show ?case by auto
next
  case (Cons t ts)
  show ?case
  proof (cases "preds_of es t = []")
    case False
    with Cons.prems have "enqueue_roots w es input_data ts s = (s', r)" by simp
    from Cons.IH [OF this] show ?thesis .
  next
    case True
    show ?thesis
    proof (cases "ready_queue s w")
      case None
      with Cons.prems True show ?thesis by auto
    next
      case (Some q)
      let ?s1 = "s\<lparr> ready_queue := (ready_queue s)
                     (w \<mapsto> q @ [(t, case input_data t of None \<Rightarrow> PyList [] | Some v \<Rightarrow> v)]) \<rparr>"
      from Cons.prems True Some have "enqueue_roots w es input_data ts ?s1 = (s', r)" by simp
      from Cons.IH [OF this] show ?thesis by simp
    qed
  qed
qed

lemma ready_cong:
  "task_status s' = task_status s \<Longrightarrow> ready w es s' t = ready w es s t"
  by (simp add: ready_def terminal_def)

lemma roots_enqueued_twice:
  assumes roots: "enqueue_roots w es input_data ts s = (s1, Inr ())"
      and disc: "discover w es ts s1 [] = Inr nu"
      and enq: "enqueue_unblocked w step nu s1 = (s2, Inr ())"
      and q: "ready_queue s w = Some q"
      and t: "t \<in> set ts" "preds_of es t = []" "task_status s (w, t) = Some Pending"
  shows "\<exists>rs. ready_queue s2 w = Some (q @ rs @ nu) \<and>
           (t, case input_data t of None \<Rightarrow> PyList [] | Some v \<Rightarrow> v) \<in> set rs \<and>
           (t, PyList []) \<in> set nu"
proof -
  let ?rs = "map (\<lambda>t. (t, case input_data t of None \<Rightarrow> PyList [] | Some v \<Rightarrow> v))
                 (filter (\<lambda>t. preds_of es t = []) ts)"
  from enqueue_roots_queue [OF roots q] have q1: "ready_queue s1 w = Some (q @ ?rs)" .
  from enqueue_unblocked_queue [OF enq q1] have q2: "ready_queue s2 w = Some (q @ ?rs @ nu)"
    by simp
  from enqueue_roots_status [OF roots] have st: "task_status s1 = task_status s" by simp
  have rdy: "ready w es s1 t" using t st by (simp add: ready_def)
  from discover_Inr [OF disc]
  have nu: "nu = map (\<lambda>t. (t, PyList (truthy_outputs w (preds_of es t) s1))) (filter (ready w es s1) ts)"
    by simp
  have "(t, PyList (truthy_outputs w (preds_of es t) s1)) \<in> set nu"
    unfolding nu using t(1) rdy by auto
  then have in_nu: "(t, PyList []) \<in> set nu" using t(2) by (simp add: truthy_outputs_def)
  have in_rs: "(t, case input_data t of None \<Rightarrow> PyList [] | Some v \<Rightarrow> v) \<in> set ?rs"
    using t(1,2) by auto
  from q2 in_rs in_nu show ?thesis by blast
qed

section \<open>Each body runs at most once\<close>

lemma result_of_Some: "result_of x = Some r \<Longrightarrow> x = Some (state_of x, r)"
  by (cases x) (auto simp: result_of_def state_of_def)

text \<open>
  Claim C10. The history \<open>invocations\<close> gets one entry each time \<open>task_runner\<close> calls a
  body. In every state that registrations, runs and direct calls of \<open>spawn_task\<close> and
  \<open>complete_task\<close> can reach, no task occurs twice in it. Dispatch leaves the state as it
  is when the status of the task is not pending; when it is pending, the body is called
  with the status running, and the status is done or failed when dispatch returns. A
  pending task without incoming edge is in the queue twice after the first discovery pass
  of a run: once from the initialization, with the user's input or \<open>[]\<close>, and once from
  the discovery pass, with \<open>[]\<close>.
\<close>

theorem body_invoked_at_most_once:
  "(reachable s \<longrightarrow> distinct (invocations s))
   \<and> (task_status s (w, t) = Some st \<and> st \<noteq> Pending \<longrightarrow>
        spawn_parallel w t inputs s = (s, Inr ()))
   \<and> (task_status s (w, t) = Some Pending \<longrightarrow>
        spawn_parallel w t inputs s =
          task_runner w t inputs (s\<lparr> task_status := (task_status s)((w, t) \<mapsto> Running),
                                     task_inputs := (task_inputs s)((w, t) \<mapsto> inputs) \<rparr>)
        \<and> terminal w (fst (spawn_parallel w t inputs s)) t)
   \<and> (enqueue_roots w es input_data ts s = (s1, Inr ()) \<and> discover w es ts s1 [] = Inr nu \<and>
      enqueue_unblocked w step nu s1 = (s2, Inr ()) \<and> ready_queue s w = Some q \<and>
      t \<in> set ts \<and> preds_of es t = [] \<and> task_status s (w, t) = Some Pending \<longrightarrow>
        (\<exists>rs. ready_queue s2 w = Some (q @ rs @ nu) \<and>
              (t, case input_data t of None \<Rightarrow> PyList [] | Some v \<Rightarrow> v) \<in> set rs \<and>
              (t, PyList []) \<in> set nu))"
  (is "?A \<and> ?B \<and> ?C \<and> ?D")
proof (intro conjI)
  show ?A using reachable_invoked_inv [of s] by (simp add: invoked_inv_def)
next
  show ?B using spawn_parallel_skip [of s w t st inputs] by blast
next
  show ?C
  proof
    assume p: "task_status s (w, t) = Some Pending"
    from spawn_parallel_dispatch [OF p, of inputs] task_runner_terminal
    show "spawn_parallel w t inputs s =
          task_runner w t inputs (s\<lparr> task_status := (task_status s)((w, t) \<mapsto> Running),
                                     task_inputs := (task_inputs s)((w, t) \<mapsto> inputs) \<rparr>)
        \<and> terminal w (fst (spawn_parallel w t inputs s)) t"
      by simp
  qed
next
  show ?D
  proof
    assume a: "enqueue_roots w es input_data ts s = (s1, Inr ()) \<and> discover w es ts s1 [] = Inr nu \<and>
      enqueue_unblocked w step nu s1 = (s2, Inr ()) \<and> ready_queue s w = Some q \<and>
      t \<in> set ts \<and> preds_of es t = [] \<and> task_status s (w, t) = Some Pending"
    then have "enqueue_roots w es input_data ts s = (s1, Inr ())" "discover w es ts s1 [] = Inr nu"
      "enqueue_unblocked w step nu s1 = (s2, Inr ())" "ready_queue s w = Some q"
      "t \<in> set ts" "preds_of es t = []" "task_status s (w, t) = Some Pending"
      by simp_all
    then show "\<exists>rs. ready_queue s2 w = Some (q @ rs @ nu) \<and>
              (t, case input_data t of None \<Rightarrow> PyList [] | Some v \<Rightarrow> v) \<in> set rs \<and>
              (t, PyList []) \<in> set nu"
      by (rule roots_enqueued_twice)
  qed
qed

theorem body_invoked_at_most_once_witness:
  "result_of run_late = Some (Inr ())
   \<and> invocations (state_of run_late) = [(''late'', ''R''), (''late'', ''C''), (''late'', ''P'')]
   \<and> distinct (invocations (state_of run_late))
   \<and> task_status (state_of run_late) (''late'', ''R'') = Some Done
   \<and> spawn_parallel ''late'' ''R'' (PyList []) (state_of run_late) = (state_of run_late, Inr ())
   \<and> task_status orch_late (''late'', ''R'') = Some Pending
   \<and> terminal ''late'' (fst (spawn_parallel ''late'' ''R'' (PyList []) orch_late)) ''R''
   \<and> (\<exists>rs. ready_queue
              (fst (enqueue_unblocked ''late'' 1 [(''R'', PyList [])]
                 (fst (enqueue_roots ''late'' (edges wf_late) Map.empty (map fst (tasks wf_late))
                         orch_late)))) ''late''
             = Some ([] @ rs @ [(''R'', PyList [])])
            \<and> (''R'', PyList []) \<in> set rs)"
proof -
  let ?ts = "map fst (tasks wf_late)"
  let ?R = "enqueue_roots ''late'' (edges wf_late) Map.empty ?ts orch_late"
  let ?E = "enqueue_unblocked ''late'' 1 [(''R'', PyList [])] (fst ?R)"
  have res: "result_of run_late = Some (Inr ())" by code_simp
  then have run: "run_workflow 10 ''late'' Map.empty orch_late = Some (state_of run_late, Inr ())"
    unfolding run_late_def [symmetric] by (rule result_of_Some)
  have "reachable orch_late"
    unfolding orch_late_def by (rule reachable_register) (rule reachable_init)
  then have reach: "reachable (state_of run_late)" using run by (rule reachable_run)
  have inv: "invocations (state_of run_late) = [(''late'', ''R''), (''late'', ''C''), (''late'', ''P'')]"
    by code_simp
  have dn: "task_status (state_of run_late) (''late'', ''R'') = Some Done" by code_simp
  have pd: "task_status orch_late (''late'', ''R'') = Some Pending" by code_simp
  have r: "snd ?R = Inr ()" by code_simp
  then have r': "?R = (fst ?R, Inr ())" by (simp add: prod_eq_iff)
  have d: "discover ''late'' (edges wf_late) ?ts (fst ?R) [] = Inr [(''R'', PyList [])]"
    by code_simp
  have e: "snd ?E = Inr ()" by code_simp
  then have e': "?E = (fst ?E, Inr ())" by (simp add: prod_eq_iff)
  have q: "ready_queue orch_late ''late'' = Some []" by code_simp
  have mem: "''R'' \<in> set ?ts" by code_simp
  have root: "preds_of (edges wf_late) ''R'' = []" by code_simp
  from body_invoked_at_most_once [where s = "state_of run_late", THEN conjunct1, rule_format, OF reach]
  have 1: "distinct (invocations (state_of run_late))" .
  from body_invoked_at_most_once
         [where s = "state_of run_late" and w = "''late''" and t = "''R''" and st = Done
            and inputs = "PyList []",
          THEN conjunct2, THEN conjunct1, rule_format, OF conjI, OF dn]
  have 2: "spawn_parallel ''late'' ''R'' (PyList []) (state_of run_late) = (state_of run_late, Inr ())"
    by simp
  from body_invoked_at_most_once
         [where s = orch_late and w = "''late''" and t = "''R''" and inputs = "PyList []",
          THEN conjunct2, THEN conjunct2, THEN conjunct1, rule_format, OF pd, THEN conjunct2]
  have 3: "terminal ''late'' (fst (spawn_parallel ''late'' ''R'' (PyList []) orch_late)) ''R''" .
  have hyp: "enqueue_roots ''late'' (edges wf_late) Map.empty ?ts orch_late = (fst ?R, Inr ()) \<and>
      discover ''late'' (edges wf_late) ?ts (fst ?R) [] = Inr [(''R'', PyList [])] \<and>
      enqueue_unblocked ''late'' 1 [(''R'', PyList [])] (fst ?R) = (fst ?E, Inr ()) \<and>
      ready_queue orch_late ''late'' = Some [] \<and>
      ''R'' \<in> set ?ts \<and> preds_of (edges wf_late) ''R'' = [] \<and>
      task_status orch_late (''late'', ''R'') = Some Pending"
    using r' d e' q mem root pd by (intro conjI)
  from body_invoked_at_most_once
         [where s = orch_late and w = "''late''" and t = "''R''" and es = "edges wf_late"
            and input_data = Map.empty and ts = ?ts and ?s1.0 = "fst ?R"
            and nu = "[(''R'', PyList [])]" and step = 1 and ?s2.0 = "fst ?E" and q = "[]",
          THEN conjunct2, THEN conjunct2, THEN conjunct2, rule_format, OF hyp]
  have 4: "\<exists>rs. ready_queue (fst ?E) ''late'' = Some ([] @ rs @ [(''R'', PyList [])])
            \<and> (''R'', PyList []) \<in> set rs"
    by simp
  from res inv 1 dn 2 pd 3 4 show ?thesis by (intro conjI)
qed

section \<open>The spawn quota\<close>

lemma spawn_task_over_quota:
  assumes wfl: "workflows s w = Some wfl" and cobj: "map_of (tasks wfl) c = Some cobj"
      and quota: "max_spawn_count (constraints cobj) = Some k"
      and cnt: "spawn_counts s (w, c) = None \<or> (\<exists>n. spawn_counts s (w, c) = Some n \<and> k \<le> n)"
  shows "(\<exists>e. snd (spawn_task w c nt es inp skip s) = Inl e)
         \<and> workflows (fst (spawn_task w c nt es inp skip s)) = workflows s
         \<and> spawn_counts (fst (spawn_task w c nt es inp skip s)) = spawn_counts s"
  using cnt
proof
  assume "spawn_counts s (w, c) = None"
  with wfl cobj quota show ?thesis by (simp add: spawn_task_def spawn_checks_def)
next
  assume "\<exists>n. spawn_counts s (w, c) = Some n \<and> k \<le> n"
  then obtain n where n: "spawn_counts s (w, c) = Some n" "k \<le> n" by blast
  let ?m = "''Task '' @ c @ '' exceeded spawn count''"
  obtain s1 and r :: "exn + unit" where fw: "fail_workflow w ?m s = (s1, r)"
    by (cases "fail_workflow w ?m s :: Orchestrator \<times> (exn + unit)")
  from fail_workflow_result [OF fw] obtain e where r: "r = Inl e" by auto
  from fail_workflow_frame [OF fw] have "workflows s1 = workflows s" "spawn_counts s1 = spawn_counts s"
    by simp_all
  then show ?thesis
    using wfl cobj quota n fw r by (simp add: spawn_task_def spawn_checks_def)
qed

text \<open>
  Claim C6. The history \<open>spawned\<close> gets the entry \<open>(w, c)\<close> each time a call of
  \<open>spawn_task\<close> with creator \<open>c\<close> in workflow \<open>w\<close> returns normally. In every reachable state
  a task with the quota \<open>k\<close> (not negative, as the constructor of the constraints requires)
  occurs at most \<open>k\<close> times in it. When it occurs \<open>k\<close> times, a further call with that
  creator raises, and leaves every workflow and every spawn count as it is. A call that
  returns normally raises the count of its creator by one.
\<close>

theorem spawn_quota_never_exceeded:
  "(reachable s \<and> workflows s w = Some wfl \<and> map_of (tasks wfl) t = Some tobj \<and>
    max_spawn_count (constraints tobj) = Some k \<and> 0 \<le> k \<longrightarrow>
      int (count_list (spawned s) (w, t)) \<le> k)
   \<and> (reachable s \<and> workflows s w = Some wfl \<and> map_of (tasks wfl) t = Some tobj \<and>
      max_spawn_count (constraints tobj) = Some k \<and> k \<le> int (count_list (spawned s) (w, t)) \<longrightarrow>
        (\<exists>e. snd (spawn_task w t nt es inp skip s) = Inl e) \<and>
        workflows (fst (spawn_task w t nt es inp skip s)) = workflows s \<and>
        spawn_counts (fst (spawn_task w t nt es inp skip s)) = spawn_counts s \<and>
        spawned (fst (spawn_task w t nt es inp skip s)) = spawned s)
   \<and> (spawn_task w t nt es inp skip s = (s', Inr ()) \<longrightarrow>
        (\<exists>cnt. spawn_counts s (w, t) = Some cnt \<and> spawn_counts s' (w, t) = Some (cnt + 1)) \<and>
        spawned s' = spawned s @ [(w, t)])"
  (is "?A \<and> ?B \<and> ?C")
proof (intro conjI)
  show ?A
  proof
    assume a: "reachable s \<and> workflows s w = Some wfl \<and> map_of (tasks wfl) t = Some tobj \<and>
               max_spawn_count (constraints tobj) = Some k \<and> 0 \<le> k"
    then have inv: "quota_inv s" by (simp add: reachable_quota_inv)
    show "int (count_list (spawned s) (w, t)) \<le> k"
    proof (cases "(w, t) \<in> set (spawned s)")
      case False
      then have "count_list (spawned s) (w, t) = 0" by (simp add: count_list_0_iff)
      with a show ?thesis by simp
    next
      case True
      with inv obtain wfl' obj cnt where "workflows s w = Some wfl'"
        "map_of (tasks wfl') t = Some obj" "int (count_list (spawned s) (w, t)) \<le> cnt"
        "\<forall>q. max_spawn_count (constraints obj) = Some q \<longrightarrow> cnt \<le> q"
        unfolding quota_inv_def by fastforce
      with a show ?thesis by auto
    qed
  qed
next
  show ?B
  proof
    assume a: "reachable s \<and> workflows s w = Some wfl \<and> map_of (tasks wfl) t = Some tobj \<and>
      max_spawn_count (constraints tobj) = Some k \<and> k \<le> int (count_list (spawned s) (w, t))"
    then have inv: "quota_inv s" by (simp add: reachable_quota_inv)
    from a have wfl: "workflows s w = Some wfl" and tobj: "map_of (tasks wfl) t = Some tobj"
      and k: "max_spawn_count (constraints tobj) = Some k"
      and full: "k \<le> int (count_list (spawned s) (w, t))" by simp_all
    have cnt: "spawn_counts s (w, t) = None \<or> (\<exists>n. spawn_counts s (w, t) = Some n \<and> k \<le> n)"
    proof (cases "spawn_counts s (w, t)")
      case None
      then show ?thesis by simp
    next
      case (Some n)
      have "k \<le> n"
      proof (cases "(w, t) \<in> set (spawned s)")
        case False
        then have "count_list (spawned s) (w, t) = 0" by (simp add: count_list_0_iff)
        with full have "k \<le> 0" by simp
        moreover from inv Some have "0 \<le> n" unfolding quota_inv_def by blast
        ultimately show ?thesis by simp
      next
        case True
        with inv obtain cnt where "spawn_counts s (w, t) = Some cnt"
          "int (count_list (spawned s) (w, t)) \<le> cnt"
          unfolding quota_inv_def by fastforce
        with Some full show ?thesis by simp
      qed
      with Some show ?thesis by simp
    qed
    let ?X = "spawn_task w t nt es inp skip s"
    from spawn_task_over_quota [OF wfl tobj k cnt]
    have 1: "\<exists>e. snd ?X = Inl e" and 2: "workflows (fst ?X) = workflows s"
      and 3: "spawn_counts (fst ?X) = spawn_counts s" by blast+
    have "?X = (fst ?X, snd ?X)" by simp
    from spawn_task_frame(2) [OF this] 1 have 4: "spawned (fst ?X) = spawned s" by auto
    from 1 2 3 4
    show "(\<exists>e. snd ?X = Inl e) \<and> workflows (fst ?X) = workflows s \<and>
        spawn_counts (fst ?X) = spawn_counts s \<and> spawned (fst ?X) = spawned s"
      by (intro conjI)
  qed
next
  show ?C
  proof
    assume ok: "spawn_task w t nt es inp skip s = (s', Inr ())"
    from spawn_task_ok [OF ok] obtain wfl0 cobj cnt
      where adm: "spawn_admitted w t nt wfl0 cobj s" and cnt: "spawn_counts s (w, t) = Some cnt"
        and s': "s' = after_spawn w t nt es inp skip wfl0 cnt s" by blast
    from adm have neq: "task_id nt \<noteq> t" by (auto simp: spawn_admitted_def)
    have c': "spawn_counts s' (w, t) = Some (cnt + 1)"
      unfolding s' using neq by (simp add: after_spawn_def Let_def inserted_def)
    have sp: "spawned s' = spawned s @ [(w, t)]"
      unfolding s' by (simp add: after_spawn_spawned)
    from cnt c' sp
    show "(\<exists>cnt. spawn_counts s (w, t) = Some cnt \<and> spawn_counts s' (w, t) = Some (cnt + 1)) \<and>
        spawned s' = spawned s @ [(w, t)]" by blast
  qed
qed

lemma map_option_SomeD: "map_option f x = Some y \<Longrightarrow> x = Some (the x)"
  by (cases x) simp_all

theorem spawn_quota_never_exceeded_witness:
  "result_of run_quota = Some (Inr ())
   \<and> spawned (state_of run_quota) = [(''quota'', ''B'')]
   \<and> int (count_list (spawned (state_of run_quota)) (''quota'', ''B'')) \<le> 1
   \<and> (\<exists>e. snd (spawn_task ''quota'' ''B'' (plain_task ''Z'') [] PyNone False (state_of run_quota))
             = Inl e)
   \<and> workflows (fst (spawn_task ''quota'' ''B'' (plain_task ''Z'') [] PyNone False (state_of run_quota)))
       = workflows (state_of run_quota)
   \<and> snd (spawn_task ''quota'' ''B'' (plain_task ''X'') [] (PyList []) False orch_quota) = Inr ()
   \<and> spawn_counts orch_quota (''quota'', ''B'') = Some 0
   \<and> spawn_counts (fst (spawn_task ''quota'' ''B'' (plain_task ''X'') [] (PyList []) False orch_quota))
        (''quota'', ''B'') = Some 1
   \<and> spawned (fst (spawn_task ''quota'' ''B'' (plain_task ''X'') [] (PyList []) False orch_quota))
       = [(''quota'', ''B'')]"
proof -
  let ?s = "state_of run_quota"
  let ?wfl = "the (workflows ?s ''quota'')"
  let ?tobj = "the (map_of (tasks ?wfl) ''B'')"
  let ?X = "spawn_task ''quota'' ''B'' (plain_task ''X'') [] (PyList []) False orch_quota"
  have res: "result_of run_quota = Some (Inr ())" by code_simp
  then have run: "run_workflow 10 ''quota'' Map.empty orch_quota = Some (?s, Inr ())"
    unfolding run_quota_def [symmetric] by (rule result_of_Some)
  have "reachable orch_quota"
    unfolding orch_quota_def by (rule reachable_register) (rule reachable_init)
  then have reach: "reachable ?s" using run by (rule reachable_run)
  have "map_option workflow_id (workflows ?s ''quota'') = Some ''quota''" by code_simp
  then have wfl: "workflows ?s ''quota'' = Some ?wfl" by (rule map_option_SomeD)
  have "map_option task_id (map_of (tasks ?wfl) ''B'') = Some ''B''" by code_simp
  then have tobj: "map_of (tasks ?wfl) ''B'' = Some ?tobj" by (rule map_option_SomeD)
  have k: "max_spawn_count (constraints ?tobj) = Some 1" by code_simp
  have sp: "spawned ?s = [(''quota'', ''B'')]" by code_simp
  have full: "(1 :: int) \<le> int (count_list (spawned ?s) (''quota'', ''B''))"
    unfolding sp by simp
  have hA: "reachable ?s \<and> workflows ?s ''quota'' = Some ?wfl \<and> map_of (tasks ?wfl) ''B'' = Some ?tobj \<and>
    max_spawn_count (constraints ?tobj) = Some 1 \<and> (0 :: int) \<le> 1"
    using reach wfl tobj k by (intro conjI) simp_all
  have hB: "reachable ?s \<and> workflows ?s ''quota'' = Some ?wfl \<and> map_of (tasks ?wfl) ''B'' = Some ?tobj \<and>
    max_spawn_count (constraints ?tobj) = Some 1 \<and>
    1 \<le> int (count_list (spawned ?s) (''quota'', ''B''))"
    using reach wfl tobj k full by (intro conjI)
  note T = spawn_quota_never_exceeded
         [where s = ?s and w = "''quota''" and t = "''B''" and wfl = ?wfl and tobj = ?tobj
            and k = 1 and nt = "plain_task ''Z''" and es = "[]" and inp = PyNone and skip = False]
  from T [THEN conjunct1, rule_format, OF hA]
  have 1: "int (count_list (spawned ?s) (''quota'', ''B'')) \<le> 1" .
  from T [THEN conjunct2, THEN conjunct1, rule_format, OF hB]
  have 2: "\<exists>e. snd (spawn_task ''quota'' ''B'' (plain_task ''Z'') [] PyNone False ?s) = Inl e"
    and 3: "workflows (fst (spawn_task ''quota'' ''B'' (plain_task ''Z'') [] PyNone False ?s))
              = workflows ?s"
    by blast+
  have x: "snd ?X = Inr ()" by code_simp
  then have x': "?X = (fst ?X, Inr ())" by (simp add: prod_eq_iff)
  have c0: "spawn_counts orch_quota (''quota'', ''B'') = Some 0" by code_simp
  have s0: "spawned orch_quota = []" by code_simp
  from spawn_quota_never_exceeded
         [where s = orch_quota and w = "''quota''" and t = "''B''" and nt = "plain_task ''X''"
            and es = "[]" and inp = "PyList []" and skip = False and s' = "fst ?X",
          THEN conjunct2, THEN conjunct2, rule_format, OF x']
  have "\<exists>cnt. spawn_counts orch_quota (''quota'', ''B'') = Some cnt \<and>
              spawn_counts (fst ?X) (''quota'', ''B'') = Some (cnt + 1)"
    and 5: "spawned (fst ?X) = spawned orch_quota @ [(''quota'', ''B'')]"
    by blast+
  with c0 s0 have 4: "spawn_counts (fst ?X) (''quota'', ''B'') = Some 1"
    and 5: "spawned (fst ?X) = [(''quota'', ''B'')]" by auto
  from res sp 1 2 3 x c0 4 5 show ?thesis by (intro conjI)
qed

section \<open>What a run raises, and when it returns\<close>


















section \<open>The first failing check of spawn_task\<close>

lemma edge_ok_code [code]:
  "edge_ok c n tm e \<longleftrightarrow>
     (fst e \<in> {c, n} \<or> snd e \<in> {c, n}) \<and>
     (case tm (fst e) of
        None \<Rightarrow> False
      | Some src_object \<Rightarrow>
          (case tm (snd e) of
             None \<Rightarrow> False
           | Some dst_object \<Rightarrow>
               check_edge_against_policy dst_object (TaskObj src_object) ''incoming'' = Inr () \<and>
               check_edge_against_policy src_object (TaskName (snd e)) ''outgoing'' = Inr ()))"
  by (auto simp: edge_ok_def split: option.splits)

lemma fail_workflow_aborted:
  assumes wfl: "workflows s w = Some wfl" and q: "ready_queue s w \<noteq> None"
      and sts: "\<forall>t \<in> fst ` set (tasks wfl). task_status s (w, t) \<noteq> None"
  shows "fail_workflow w m s = aborted w m s"
proof -
  from q obtain q0 where q0: "ready_queue s w = Some q0" by auto
  have "snd (fail_workflow w m s) = (Inl (RuntimeError (abort_message w m)) :: exn + unit)"
    by (rule fail_workflow_total [OF wfl q0 sts])
  then obtain s' where fw: "fail_workflow w m s = (s', (Inl (RuntimeError (abort_message w m)) :: exn + unit))"
    by (metis prod.collapse)
  from fail_workflow_abort [OF fw] wfl
  have "s' = s\<lparr> ready_queue := (ready_queue s)(w \<mapsto> []),
                 task_status := aborted_status w (fst ` set (tasks wfl)) (task_status s),
                 running_loops := (running_loops s)(w \<mapsto> False) \<rparr>" by auto
  with fw wfl show ?thesis by (simp add: aborted_def)
qed

lemma registered_aborted:
  "registered w wfl s \<Longrightarrow> fail_workflow w m s = aborted w m s"
  by (rule fail_workflow_aborted) (auto simp: registered_def)

lemma half_spawned_aborted:
  assumes "registered w wfl s"
  shows "fail_workflow w m (half_spawned w c nt skip wfl cnt es1 s)
         = aborted w m (half_spawned w c nt skip wfl cnt es1 s)"
proof (rule fail_workflow_aborted)
  let ?mid = "half_spawned w c nt skip wfl cnt es1 s"
  let ?wm = "(inserted_wfl c nt skip wfl)\<lparr> edges := edges (inserted_wfl c nt skip wfl) @ es1,
                visual_edges := visual_edges (inserted_wfl c nt skip wfl) @ es1 \<rparr>"
  show "workflows ?mid w = Some ?wm" by (simp add: half_spawned_def)
  show "ready_queue ?mid w \<noteq> None" using assms by (simp add: half_spawned_def registered_def)
  show "\<forall>t \<in> fst ` set (tasks ?wm). task_status ?mid (w, t) \<noteq> None"
    using assms by (auto simp: half_spawned_def registered_def)
qed

lemma spawn_task_checks_fail:
  "spawn_checks w c nt s = (s1, Inl e) \<Longrightarrow> spawn_task w c nt es inp skip s = (s1, Inl e)"
  by (simp add: spawn_task_def)

lemma aborted_Inl: "aborted w m s = (fst (aborted w m s), Inl (RuntimeError (abort_message w m)))"
  by (simp add: aborted_def)

lemma spawn_task_checks_abort:
  assumes "spawn_checks w c nt s = fail_workflow w m s" and "registered w wfl s"
  shows "spawn_task w c nt es inp skip s = aborted w m s"
proof -
  from assms have "spawn_checks w c nt s = aborted w m s" by (simp add: registered_aborted)
  then have "spawn_checks w c nt s = (fst (aborted w m s), Inl (RuntimeError (abort_message w m)))"
    using aborted_Inl [of w m s] by simp
  from spawn_task_checks_fail [OF this] aborted_Inl [of w m s] show ?thesis by simp
qed

lemma spawn_admitted_checks:
  "spawn_admitted w c nt wfl cobj s \<Longrightarrow> spawn_checks w c nt s = (s, Inr ())"
  by (cases "max_spawn_count (constraints cobj)")
     (auto simp: spawn_admitted_def spawn_checks_def)

lemma add_new_edges_prefix:
  assumes "workflows s w = Some wfl"
      and "\<forall>x \<in> set es1. edge_ok c n (map_of (tasks wfl)) x"
  shows "add_new_edges w c n (es1 @ es2) s = add_new_edges w c n es2 (with_edges w wfl es1 s)"
  using assms
proof (induction es1 arbitrary: s wfl)
  case Nil
  then show ?case by (simp add: with_edges_Nil)
next
  case (Cons e es1)
  let ?w1 = "wfl\<lparr> edges := edges wfl @ [e], visual_edges := visual_edges wfl @ [e] \<rparr>"
  have 1: "workflows (with_edges w wfl [e] s) w = Some ?w1" by simp
  have 2: "\<forall>x \<in> set es1. edge_ok c n (map_of (tasks ?w1)) x" using Cons.prems(2) by simp
  from Cons.prems have "add_new_edges w c n ((e # es1) @ es2) s
      = add_new_edges w c n (es1 @ es2) (with_edges w wfl [e] s)"
    by (simp add: add_new_edges_step)
  also have "\<dots> = add_new_edges w c n es2 (with_edges w ?w1 es1 (with_edges w wfl [e] s))"
    by (rule Cons.IH [OF 1 2])
  also have "with_edges w ?w1 es1 (with_edges w wfl [e] s) = with_edges w wfl (e # es1) s"
    by (rule with_edges_Cons)
  finally show ?case .
qed

text \<open>
  From an admitted call, \<open>spawn_task\<close> goes on as the loop over the remaining edges does in
  the state where the new task is inserted and a prefix of accepted edges is appended.
\<close>

lemma spawn_task_at_edge:
  assumes adm: "spawn_admitted w c nt wfl cobj s" and cnt: "spawn_counts s (w, c) = Some cnt"
      and ok: "\<forall>x \<in> set es1. edge_ok c (task_id nt) (map_of (tasks wfl @ [(task_id nt, nt)])) x"
      and rest: "add_new_edges w c (task_id nt) es2 (half_spawned w c nt skip wfl cnt es1 s) = (s3, Inl e)"
  shows "spawn_task w c nt (es1 @ es2) inp skip s = (s3, Inl e)"
proof -
  from adm have wfl: "workflows s w = Some wfl" and cobj: "map_of (tasks wfl) c = Some cobj"
    and fresh: "map_of (tasks wfl) (task_id nt) = None"
    by (auto simp: spawn_admitted_def)
  have ins: "spawn_insert w c nt skip s = (inserted w c nt skip wfl cnt s, Inr ())"
    by (rule spawn_insert_inserted [OF wfl fresh cobj cnt])
  have w1: "workflows (inserted w c nt skip wfl cnt s) w = Some (inserted_wfl c nt skip wfl)"
    by simp
  have ok': "\<forall>x \<in> set es1. edge_ok c (task_id nt) (map_of (tasks (inserted_wfl c nt skip wfl))) x"
    using ok by simp
  have "add_new_edges w c (task_id nt) (es1 @ es2) (inserted w c nt skip wfl cnt s) = (s3, Inl e)"
    using add_new_edges_prefix [OF w1 ok', of es2] rest by (simp add: half_spawned_def)
  with spawn_admitted_checks [OF adm] ins show ?thesis by (simp add: spawn_task_def)
qed

lemma half_spawned_workflow:
  "workflows (half_spawned w c nt skip wfl cnt es1 s) w =
     Some ((inserted_wfl c nt skip wfl)\<lparr> edges := edges wfl @ es1,
             visual_edges := visual_edges (inserted_wfl c nt skip wfl) @ es1 \<rparr>)"
  by (simp add: half_spawned_def)

text \<open>
  Claim C3 says that a failed precondition of \<open>spawn_task\<close> aborts the workflow, with the
  emptied queue, the failed tasks, the cleared flag and the error as the only effects. In
  the workflow \<open>chk\<close>, where \<open>X\<close> waits in the ready queue, \<open>A\<close> spawns \<open>C\<close> with the new
  edges \<open>(C, Z)\<close> and \<open>(B, D)\<close>. The second edge has no endpoint among \<open>A\<close> and \<open>C\<close>, but the
  lookup of \<open>Z\<close> for the first one raises \<^verbatim>\<open>KeyError\<close> before: nothing is aborted, the
  queue and the statuses stay, and \<open>C\<close> is inserted. With the new edges \<open>(B, C)\<close> and
  \<open>(C, A)\<close> the cycle check aborts the workflow; beyond the effects of the abort, \<open>C\<close> is a
  task of the workflow, the two edges are in it, and the spawn count of \<open>A\<close> went from 1
  to 2.
\<close>

theorem spawn_task_failure_counterexample:
  "ready_queue orch_chk_waiting ''chk'' = Some [(''X'', PyInt 1)]
   \<and> spawn_counts orch_chk_waiting (''chk'', ''A'') = Some 1
   \<and> map_option edges (workflows orch_chk_waiting ''chk'') = Some [(''A'', ''B'')]
   \<and> snd (spawn_task ''chk'' ''A'' (plain_task ''C'') [(''C'', ''Z''), (''B'', ''D'')] PyNone False
            orch_chk_waiting) = Inl KeyError
   \<and> ready_queue (fst (spawn_task ''chk'' ''A'' (plain_task ''C'') [(''C'', ''Z''), (''B'', ''D'')]
                         PyNone False orch_chk_waiting)) ''chk'' = Some [(''X'', PyInt 1)]
   \<and> map (\<lambda>t. task_status (fst (spawn_task ''chk'' ''A'' (plain_task ''C'')
                                    [(''C'', ''Z''), (''B'', ''D'')] PyNone False orch_chk_waiting))
                  (''chk'', t)) [''A'', ''B'', ''X'', ''C'']
       = [Some Pending, Some Pending, Some Pending, Some Pending]
   \<and> snd (spawn_task ''chk'' ''A'' (plain_task ''C'') [(''B'', ''C''), (''C'', ''A'')] PyNone False
            orch_chk_waiting)
       = Inl (RuntimeError
           ''Workflow chk terminated due to constraint violation: spawn_task caused cycle'')
   \<and> map_option (map fst \<circ> tasks)
        (workflows (fst (spawn_task ''chk'' ''A'' (plain_task ''C'') [(''B'', ''C''), (''C'', ''A'')]
                           PyNone False orch_chk_waiting)) ''chk'')
       = Some [''A'', ''B'', ''N'', ''Q'', ''E'', ''X'', ''C'']
   \<and> map_option edges
        (workflows (fst (spawn_task ''chk'' ''A'' (plain_task ''C'') [(''B'', ''C''), (''C'', ''A'')]
                           PyNone False orch_chk_waiting)) ''chk'')
       = Some [(''A'', ''B''), (''B'', ''C''), (''C'', ''A'')]
   \<and> spawn_counts (fst (spawn_task ''chk'' ''A'' (plain_task ''C'') [(''B'', ''C''), (''C'', ''A'')]
                           PyNone False orch_chk_waiting)) (''chk'', ''A'') = Some 2
   \<and> task_status (fst (spawn_task ''chk'' ''A'' (plain_task ''C'') [(''B'', ''C''), (''C'', ''A'')]
                           PyNone False orch_chk_waiting)) (''chk'', ''C'') = Some Failed"
  by code_simp

text \<open>
  Claim C3, amended. Let \<open>spawn_task\<close> be called for a registered workflow. The checks run
  in the order of the source, and the first one that fails ends the call. For an unknown
  creator, an exhausted quota, a rejecting node check and a taken task id, the call is
  \<open>aborted\<close> in the state of the call, with the message of that check. After these, the
  new task is inserted and the creator's count is raised, and the new edges are taken in
  order: an edge with no endpoint among creator and new task, and an edge that an edge
  check rejects, make the call \<open>aborted\<close> in the state \<open>half_spawned\<close>, in which the new
  task and the edges before that one stay; an edge with an endpoint that is no task
  raises \<^verbatim>\<open>KeyError\<close> in that state, without abort. When every edge is accepted and the
  graph has a cycle, the call is \<open>aborted\<close> in the state with all new edges.
\<close>

theorem spawn_task_first_failing_check:
  "registered w wfl s \<longrightarrow>
   (map_of (tasks wfl) c = None \<longrightarrow>
      spawn_task w c nt es inp skip s = aborted w (''Creator '' @ c @ '' not in wf '' @ w) s)
   \<and> (map_of (tasks wfl) c = Some cobj \<and> max_spawn_count (constraints cobj) = Some k \<and>
      spawn_counts s (w, c) = Some n \<and> k \<le> n \<longrightarrow>
        spawn_task w c nt es inp skip s = aborted w (''Task '' @ c @ '' exceeded spawn count'') s)
   \<and> (map_of (tasks wfl) c = Some cobj \<and>
      (\<forall>k. max_spawn_count (constraints cobj) = Some k \<longrightarrow>
           (\<exists>n. spawn_counts s (w, c) = Some n \<and> n < k)) \<longrightarrow>
        (check_node_against_policy cobj nt ''next'' = Inl (RuntimeError m) \<longrightarrow>
           spawn_task w c nt es inp skip s = aborted w m s)
      \<and> (check_node_against_policy cobj nt ''next'' = Inr () \<and>
         check_node_against_policy cobj nt ''previous'' = Inl (RuntimeError m) \<longrightarrow>
           spawn_task w c nt es inp skip s = aborted w m s)
      \<and> (check_node_against_policy cobj nt ''next'' = Inr () \<and>
         check_node_against_policy cobj nt ''previous'' = Inr () \<and>
         map_of (tasks wfl) (task_id nt) \<noteq> None \<longrightarrow>
           spawn_task w c nt es inp skip s =
             aborted w (''Task '' @ task_id nt @ '' already in wf '' @ w) s))
   \<and> (spawn_admitted w c nt wfl cobj s \<and> spawn_counts s (w, c) = Some cnt \<and>
      (\<forall>x \<in> set es1. edge_ok c (task_id nt) (map_of (tasks wfl @ [(task_id nt, nt)])) x) \<longrightarrow>
        (src \<notin> {c, task_id nt} \<and> dst \<notin> {c, task_id nt} \<longrightarrow>
           spawn_task w c nt (es1 @ (src, dst) # es2) inp skip s =
             aborted w (''The edge ('' @ src @ '', '' @ dst
                        @ '') is not related to the creator or the new task.'')
               (half_spawned w c nt skip wfl cnt es1 s))
      \<and> ((src \<in> {c, task_id nt} \<or> dst \<in> {c, task_id nt}) \<and>
         (map_of (tasks wfl @ [(task_id nt, nt)]) src = None \<or>
          map_of (tasks wfl @ [(task_id nt, nt)]) dst = None) \<longrightarrow>
           spawn_task w c nt (es1 @ (src, dst) # es2) inp skip s =
             (half_spawned w c nt skip wfl cnt es1 s, Inl KeyError))
      \<and> ((src \<in> {c, task_id nt} \<or> dst \<in> {c, task_id nt}) \<and>
         map_of (tasks wfl @ [(task_id nt, nt)]) src = Some src_object \<and>
         map_of (tasks wfl @ [(task_id nt, nt)]) dst = Some dst_object \<longrightarrow>
           (check_edge_against_policy dst_object (TaskObj src_object) ''incoming''
              = Inl (RuntimeError m) \<longrightarrow>
              spawn_task w c nt (es1 @ (src, dst) # es2) inp skip s =
                aborted w m (half_spawned w c nt skip wfl cnt es1 s))
         \<and> (check_edge_against_policy dst_object (TaskObj src_object) ''incoming'' = Inr () \<and>
            check_edge_against_policy src_object (TaskName dst) ''outgoing''
              = Inl (RuntimeError m) \<longrightarrow>
              spawn_task w c nt (es1 @ (src, dst) # es2) inp skip s =
                aborted w m (half_spawned w c nt skip wfl cnt es1 s)))
      \<and> (\<not> acyclic (set (edges wfl @ es1)) \<longrightarrow>
           spawn_task w c nt es1 inp skip s =
             aborted w ''spawn_task caused cycle'' (half_spawned w c nt skip wfl cnt es1 s)))"
proof (intro impI)
  assume reg: "registered w wfl s"
  then have wfl: "workflows s w = Some wfl" by (simp add: registered_def)
  note ab = spawn_task_checks_abort [OF _ reg]
  have 1: "map_of (tasks wfl) c = None \<longrightarrow>
      spawn_task w c nt es inp skip s = aborted w (''Creator '' @ c @ '' not in wf '' @ w) s"
  proof
    assume "map_of (tasks wfl) c = None"
    with wfl have "spawn_checks w c nt s
        = fail_workflow w (''Creator '' @ c @ '' not in wf '' @ w) s"
      by (simp add: spawn_checks_def)
    then show "spawn_task w c nt es inp skip s
        = aborted w (''Creator '' @ c @ '' not in wf '' @ w) s" by (rule ab)
  qed
  have 2: "map_of (tasks wfl) c = Some cobj \<and> max_spawn_count (constraints cobj) = Some k \<and>
      spawn_counts s (w, c) = Some n \<and> k \<le> n \<longrightarrow>
        spawn_task w c nt es inp skip s = aborted w (''Task '' @ c @ '' exceeded spawn count'') s"
  proof
    assume "map_of (tasks wfl) c = Some cobj \<and> max_spawn_count (constraints cobj) = Some k \<and>
      spawn_counts s (w, c) = Some n \<and> k \<le> n"
    with wfl have "spawn_checks w c nt s
        = fail_workflow w (''Task '' @ c @ '' exceeded spawn count'') s"
      by (simp add: spawn_checks_def)
    then show "spawn_task w c nt es inp skip s
        = aborted w (''Task '' @ c @ '' exceeded spawn count'') s" by (rule ab)
  qed
  have 3: "map_of (tasks wfl) c = Some cobj \<and>
      (\<forall>k. max_spawn_count (constraints cobj) = Some k \<longrightarrow>
           (\<exists>n. spawn_counts s (w, c) = Some n \<and> n < k)) \<longrightarrow>
        (check_node_against_policy cobj nt ''next'' = Inl (RuntimeError m) \<longrightarrow>
           spawn_task w c nt es inp skip s = aborted w m s)
      \<and> (check_node_against_policy cobj nt ''next'' = Inr () \<and>
         check_node_against_policy cobj nt ''previous'' = Inl (RuntimeError m) \<longrightarrow>
           spawn_task w c nt es inp skip s = aborted w m s)
      \<and> (check_node_against_policy cobj nt ''next'' = Inr () \<and>
         check_node_against_policy cobj nt ''previous'' = Inr () \<and>
         map_of (tasks wfl) (task_id nt) \<noteq> None \<longrightarrow>
           spawn_task w c nt es inp skip s =
             aborted w (''Task '' @ task_id nt @ '' already in wf '' @ w) s)"
  proof (intro impI conjI)
    assume a: "map_of (tasks wfl) c = Some cobj \<and>
      (\<forall>k. max_spawn_count (constraints cobj) = Some k \<longrightarrow>
           (\<exists>n. spawn_counts s (w, c) = Some n \<and> n < k))"
    then have cobj: "map_of (tasks wfl) c = Some cobj" by simp
    have quota: "(case max_spawn_count (constraints cobj) of
              None \<Rightarrow> Inr False
            | Some k \<Rightarrow>
                (case spawn_counts s (w, c) of
                   None \<Rightarrow> Inl KeyError
                 | Some c \<Rightarrow> Inr (c \<ge> k))) = (Inr False :: exn + bool)"
      using a by (cases "max_spawn_count (constraints cobj)") auto
    {
      assume "check_node_against_policy cobj nt ''next'' = Inl (RuntimeError m)"
      with wfl cobj quota have "spawn_checks w c nt s = fail_workflow w m s"
        by (simp add: spawn_checks_def)
      then show "spawn_task w c nt es inp skip s = aborted w m s" by (rule ab)
    }
    {
      assume "check_node_against_policy cobj nt ''next'' = Inr () \<and>
         check_node_against_policy cobj nt ''previous'' = Inl (RuntimeError m)"
      with wfl cobj quota have "spawn_checks w c nt s = fail_workflow w m s"
        by (simp add: spawn_checks_def)
      then show "spawn_task w c nt es inp skip s = aborted w m s" by (rule ab)
    }
    {
      assume "check_node_against_policy cobj nt ''next'' = Inr () \<and>
         check_node_against_policy cobj nt ''previous'' = Inr () \<and>
         map_of (tasks wfl) (task_id nt) \<noteq> None"
      with wfl cobj quota have "spawn_checks w c nt s
          = fail_workflow w (''Task '' @ task_id nt @ '' already in wf '' @ w) s"
        by (auto simp: spawn_checks_def)
      then show "spawn_task w c nt es inp skip s =
             aborted w (''Task '' @ task_id nt @ '' already in wf '' @ w) s" by (rule ab)
    }
  qed
  let ?tm = "map_of (tasks wfl @ [(task_id nt, nt)])"
  let ?mid = "half_spawned w c nt skip wfl cnt es1 s"
  have 4: "spawn_admitted w c nt wfl cobj s \<and> spawn_counts s (w, c) = Some cnt \<and>
      (\<forall>x \<in> set es1. edge_ok c (task_id nt) ?tm x) \<longrightarrow>
        (src \<notin> {c, task_id nt} \<and> dst \<notin> {c, task_id nt} \<longrightarrow>
           spawn_task w c nt (es1 @ (src, dst) # es2) inp skip s =
             aborted w (''The edge ('' @ src @ '', '' @ dst
                        @ '') is not related to the creator or the new task.'') ?mid)
      \<and> ((src \<in> {c, task_id nt} \<or> dst \<in> {c, task_id nt}) \<and>
         (?tm src = None \<or> ?tm dst = None) \<longrightarrow>
           spawn_task w c nt (es1 @ (src, dst) # es2) inp skip s = (?mid, Inl KeyError))
      \<and> ((src \<in> {c, task_id nt} \<or> dst \<in> {c, task_id nt}) \<and>
         ?tm src = Some src_object \<and> ?tm dst = Some dst_object \<longrightarrow>
           (check_edge_against_policy dst_object (TaskObj src_object) ''incoming''
              = Inl (RuntimeError m) \<longrightarrow>
              spawn_task w c nt (es1 @ (src, dst) # es2) inp skip s = aborted w m ?mid)
         \<and> (check_edge_against_policy dst_object (TaskObj src_object) ''incoming'' = Inr () \<and>
            check_edge_against_policy src_object (TaskName dst) ''outgoing''
              = Inl (RuntimeError m) \<longrightarrow>
              spawn_task w c nt (es1 @ (src, dst) # es2) inp skip s = aborted w m ?mid))
      \<and> (\<not> acyclic (set (edges wfl @ es1)) \<longrightarrow>
           spawn_task w c nt es1 inp skip s = aborted w ''spawn_task caused cycle'' ?mid)"
  proof (intro impI conjI)
    assume a: "spawn_admitted w c nt wfl cobj s \<and> spawn_counts s (w, c) = Some cnt \<and>
      (\<forall>x \<in> set es1. edge_ok c (task_id nt) ?tm x)"
    then have adm: "spawn_admitted w c nt wfl cobj s" and cnt: "spawn_counts s (w, c) = Some cnt"
      and ok: "\<forall>x \<in> set es1. edge_ok c (task_id nt) ?tm x" by simp_all
    note at = spawn_task_at_edge [OF adm cnt ok]
    note wm = half_spawned_workflow [of w c nt skip wfl cnt es1 s]
    have fw: "fail_workflow w msg ?mid = (fst (aborted w msg ?mid),
                (Inl (RuntimeError (abort_message w msg)) :: exn + unit))" for msg
      using half_spawned_aborted [OF reg, of msg c nt skip cnt es1] aborted_Inl [of w msg ?mid]
      by simp
    {
      assume "src \<notin> {c, task_id nt} \<and> dst \<notin> {c, task_id nt}"
      then have "add_new_edges w c (task_id nt) ((src, dst) # es2) ?mid
          = (fst (aborted w (''The edge ('' @ src @ '', '' @ dst
                        @ '') is not related to the creator or the new task.'') ?mid),
             Inl (RuntimeError (abort_message w (''The edge ('' @ src @ '', '' @ dst
                        @ '') is not related to the creator or the new task.''))))"
        by (simp add: fw)
      from at [OF this]
      show "spawn_task w c nt (es1 @ (src, dst) # es2) inp skip s =
             aborted w (''The edge ('' @ src @ '', '' @ dst
                        @ '') is not related to the creator or the new task.'') ?mid"
        by (simp add: aborted_Inl [symmetric])
    }
    {
      assume "(src \<in> {c, task_id nt} \<or> dst \<in> {c, task_id nt}) \<and>
         (?tm src = None \<or> ?tm dst = None)"
      then have "add_new_edges w c (task_id nt) ((src, dst) # es2) ?mid = (?mid, Inl KeyError)"
        using wm by (auto split: option.splits)
      from at [OF this]
      show "spawn_task w c nt (es1 @ (src, dst) # es2) inp skip s = (?mid, Inl KeyError)" .
    }
    {
      assume b: "(src \<in> {c, task_id nt} \<or> dst \<in> {c, task_id nt}) \<and>
         ?tm src = Some src_object \<and> ?tm dst = Some dst_object"
         and "check_edge_against_policy dst_object (TaskObj src_object) ''incoming''
              = Inl (RuntimeError m)"
      then have "add_new_edges w c (task_id nt) ((src, dst) # es2) ?mid
          = (fst (aborted w m ?mid), Inl (RuntimeError (abort_message w m)))"
        using wm by (auto simp: fw)
      from at [OF this]
      show "spawn_task w c nt (es1 @ (src, dst) # es2) inp skip s = aborted w m ?mid"
        by (simp add: aborted_Inl [symmetric])
    }
    {
      assume b: "(src \<in> {c, task_id nt} \<or> dst \<in> {c, task_id nt}) \<and>
         ?tm src = Some src_object \<and> ?tm dst = Some dst_object"
         and "check_edge_against_policy dst_object (TaskObj src_object) ''incoming'' = Inr () \<and>
            check_edge_against_policy src_object (TaskName dst) ''outgoing''
              = Inl (RuntimeError m)"
      then have "add_new_edges w c (task_id nt) ((src, dst) # es2) ?mid
          = (fst (aborted w m ?mid), Inl (RuntimeError (abort_message w m)))"
        using wm by (auto simp: fw)
      from at [OF this]
      show "spawn_task w c nt (es1 @ (src, dst) # es2) inp skip s = aborted w m ?mid"
        by (simp add: aborted_Inl [symmetric])
    }
    {
      assume cyc: "\<not> acyclic (set (edges wfl @ es1))"
      from adm have fresh: "map_of (tasks wfl) (task_id nt) = None"
        and cobj: "map_of (tasks wfl) c = Some cobj" by (auto simp: spawn_admitted_def)
      have ins: "spawn_insert w c nt skip s = (inserted w c nt skip wfl cnt s, Inr ())"
        by (rule spawn_insert_inserted [OF wfl fresh cobj cnt])
      have w1: "workflows (inserted w c nt skip wfl cnt s) w = Some (inserted_wfl c nt skip wfl)"
        by simp
      have ok': "\<forall>x \<in> set es1. edge_ok c (task_id nt) (map_of (tasks (inserted_wfl c nt skip wfl))) x"
        using ok by simp
      have ae: "add_new_edges w c (task_id nt) es1 (inserted w c nt skip wfl cnt s) = (?mid, Inr ())"
        using add_new_edges_prefix [OF w1 ok', of "[]"] by (simp add: half_spawned_def)
      have fin: "spawn_finish w nt inp ?mid = fail_workflow w ''spawn_task caused cycle'' ?mid"
        using cyc wm by (simp add: spawn_finish_def is_acyclic_def is_directed_acyclic_graph_def)
      show "spawn_task w c nt es1 inp skip s = aborted w ''spawn_task caused cycle'' ?mid"
      proof -
        have "spawn_finish w nt inp ?mid
            = (fst (aborted w ''spawn_task caused cycle'' ?mid),
               Inl (RuntimeError (abort_message w ''spawn_task caused cycle'')))"
          using fin fw [of "''spawn_task caused cycle''"] by simp
        with spawn_admitted_checks [OF adm] ins ae
        have "spawn_task w c nt es1 inp skip s
            = (fst (aborted w ''spawn_task caused cycle'' ?mid),
               Inl (RuntimeError (abort_message w ''spawn_task caused cycle'')))"
          by (simp add: spawn_task_def)
        then show ?thesis by (simp add: aborted_Inl [symmetric])
      qed
    }
  qed
  from 1 2 3 4
  show "(map_of (tasks wfl) c = None \<longrightarrow>
      spawn_task w c nt es inp skip s = aborted w (''Creator '' @ c @ '' not in wf '' @ w) s)
   \<and> (map_of (tasks wfl) c = Some cobj \<and> max_spawn_count (constraints cobj) = Some k \<and>
      spawn_counts s (w, c) = Some n \<and> k \<le> n \<longrightarrow>
        spawn_task w c nt es inp skip s = aborted w (''Task '' @ c @ '' exceeded spawn count'') s)
   \<and> (map_of (tasks wfl) c = Some cobj \<and>
      (\<forall>k. max_spawn_count (constraints cobj) = Some k \<longrightarrow>
           (\<exists>n. spawn_counts s (w, c) = Some n \<and> n < k)) \<longrightarrow>
        (check_node_against_policy cobj nt ''next'' = Inl (RuntimeError m) \<longrightarrow>
           spawn_task w c nt es inp skip s = aborted w m s)
      \<and> (check_node_against_policy cobj nt ''next'' = Inr () \<and>
         check_node_against_policy cobj nt ''previous'' = Inl (RuntimeError m) \<longrightarrow>
           spawn_task w c nt es inp skip s = aborted w m s)
      \<and> (check_node_against_policy cobj nt ''next'' = Inr () \<and>
         check_node_against_policy cobj nt ''previous'' = Inr () \<and>
         map_of (tasks wfl) (task_id nt) \<noteq> None \<longrightarrow>
           spawn_task w c nt es inp skip s =
             aborted w (''Task '' @ task_id nt @ '' already in wf '' @ w) s))
   \<and> (spawn_admitted w c nt wfl cobj s \<and> spawn_counts s (w, c) = Some cnt \<and>
      (\<forall>x \<in> set es1. edge_ok c (task_id nt) ?tm x) \<longrightarrow>
        (src \<notin> {c, task_id nt} \<and> dst \<notin> {c, task_id nt} \<longrightarrow>
           spawn_task w c nt (es1 @ (src, dst) # es2) inp skip s =
             aborted w (''The edge ('' @ src @ '', '' @ dst
                        @ '') is not related to the creator or the new task.'') ?mid)
      \<and> ((src \<in> {c, task_id nt} \<or> dst \<in> {c, task_id nt}) \<and>
         (?tm src = None \<or> ?tm dst = None) \<longrightarrow>
           spawn_task w c nt (es1 @ (src, dst) # es2) inp skip s = (?mid, Inl KeyError))
      \<and> ((src \<in> {c, task_id nt} \<or> dst \<in> {c, task_id nt}) \<and>
         ?tm src = Some src_object \<and> ?tm dst = Some dst_object \<longrightarrow>
           (check_edge_against_policy dst_object (TaskObj src_object) ''incoming''
              = Inl (RuntimeError m) \<longrightarrow>
              spawn_task w c nt (es1 @ (src, dst) # es2) inp skip s = aborted w m ?mid)
         \<and> (check_edge_against_policy dst_object (TaskObj src_object) ''incoming'' = Inr () \<and>
            check_edge_against_policy src_object (TaskName dst) ''outgoing''
              = Inl (RuntimeError m) \<longrightarrow>
              spawn_task w c nt (es1 @ (src, dst) # es2) inp skip s = aborted w m ?mid))
      \<and> (\<not> acyclic (set (edges wfl @ es1)) \<longrightarrow>
           spawn_task w c nt es1 inp skip s = aborted w ''spawn_task caused cycle'' ?mid))"
    by (intro conjI)
qed

lemma wf_chk_id: "workflow_id wf_chk = ''chk''"
  by code_simp

lemma orch_chk_workflow: "workflows orch_chk ''chk'' = Some wf_chk"
  by (simp add: orch_chk_def register_workflow_def Let_def wf_chk_id Orchestrator_init_def)

lemma map_option_NoneD: "map_option f x = None \<Longrightarrow> x = None"
  by simp

lemma spawn_admittedI:
  assumes "workflows s w = Some wfl"
      and "map_option task_id (map_of (tasks wfl) c) = Some n"
      and "max_spawn_count (constraints (the (map_of (tasks wfl) c))) = None"
      and "check_node_against_policy (the (map_of (tasks wfl) c)) nt ''next'' = Inr ()"
      and "check_node_against_policy (the (map_of (tasks wfl) c)) nt ''previous'' = Inr ()"
      and "map_option task_id (map_of (tasks wfl) (task_id nt)) = None"
  shows "spawn_admitted w c nt wfl (the (map_of (tasks wfl) c)) s"
  using assms map_option_SomeD [OF assms(2)] by (simp add: spawn_admitted_def)

theorem spawn_task_first_failing_check_witness:
  "snd (spawn_task ''chk'' ''Z'' (plain_task ''C'') [] PyNone False orch_chk)
     = Inl (RuntimeError
         ''Workflow chk terminated due to constraint violation: Creator Z not in wf chk'')
   \<and> snd (spawn_task ''chk'' ''Q'' (plain_task ''C'') [] PyNone False orch_chk)
     = Inl (RuntimeError
         ''Workflow chk terminated due to constraint violation: Task Q exceeded spawn count'')
   \<and> snd (spawn_task ''chk'' ''N'' (plain_task ''C'') [] PyNone False orch_chk)
     = Inl (RuntimeError
         ''Workflow chk terminated due to constraint violation: Task N cannot spawn any child nodes.'')
   \<and> snd (spawn_task ''chk'' ''A'' task_orphan [] PyNone False orch_chk)
     = Inl (RuntimeError
         ''Workflow chk terminated due to constraint violation: Task O cannot have any parents.'')
   \<and> snd (spawn_task ''chk'' ''A'' (plain_task ''B'') [] PyNone False orch_chk)
     = Inl (RuntimeError
         ''Workflow chk terminated due to constraint violation: Task B already in wf chk'')
   \<and> snd (spawn_task ''chk'' ''A'' (plain_task ''C'') [(''A'', ''C''), (''B'', ''D'')] PyNone False
            orch_chk)
     = Inl (RuntimeError
         ''Workflow chk terminated due to constraint violation: The edge (B, D) is not related to the creator or the new task.'')
   \<and> spawn_task ''chk'' ''A'' (plain_task ''C'') [(''A'', ''C''), (''C'', ''Z'')] PyNone False orch_chk
     = (half_spawned ''chk'' ''A'' (plain_task ''C'') False wf_chk 0 [(''A'', ''C'')] orch_chk,
        Inl KeyError)
   \<and> snd (spawn_task ''chk'' ''A'' task_sink [(''A'', ''S'')] PyNone False orch_chk)
     = Inl (RuntimeError
         ''Workflow chk terminated due to constraint violation: Task S cannot create incoming edges.'')
   \<and> snd (spawn_task ''chk'' ''A'' (plain_task ''C'') [(''E'', ''C'')] PyNone False orch_chk)
     = Inl (RuntimeError
         ''Workflow chk terminated due to constraint violation: Task E cannot create outgoing edges.'')
   \<and> snd (spawn_task ''chk'' ''A'' (plain_task ''C'') [(''B'', ''C''), (''C'', ''A'')] PyNone False
            orch_chk)
     = Inl (RuntimeError
         ''Workflow chk terminated due to constraint violation: spawn_task caused cycle'')
   \<and> ready_queue (fst (spawn_task ''chk'' ''A'' (plain_task ''C'') [(''B'', ''C''), (''C'', ''A'')]
                         PyNone False orch_chk)) ''chk'' = Some []
   \<and> running_loops (fst (spawn_task ''chk'' ''A'' (plain_task ''C'') [(''B'', ''C''), (''C'', ''A'')]
                         PyNone False orch_chk)) ''chk'' = Some False
   \<and> map (\<lambda>t. task_status (fst (spawn_task ''chk'' ''A'' (plain_task ''C'')
                                    [(''B'', ''C''), (''C'', ''A'')] PyNone False orch_chk))
                  (''chk'', t)) [''A'', ''B'', ''N'', ''Q'', ''E'', ''C'']
       = [Some Failed, Some Failed, Some Failed, Some Failed, Some Failed, Some Failed]"
proof -
  note wf = orch_chk_workflow
  have "ready_queue orch_chk ''chk'' \<noteq> None \<and>
        (\<forall>t \<in> fst ` set (tasks wf_chk).
            task_status orch_chk (''chk'', t) \<noteq> None \<and> spawn_counts orch_chk (''chk'', t) \<noteq> None)"
    by code_simp
  with wf have reg: "registered ''chk'' wf_chk orch_chk" by (simp add: registered_def)
  note T = spawn_task_first_failing_check [where w = "''chk''" and wfl = wf_chk and s = orch_chk,
             rule_format, OF reg]
  let ?A = "the (map_of (tasks wf_chk) ''A'')"
  let ?Q = "the (map_of (tasks wf_chk) ''Q'')"
  let ?N = "the (map_of (tasks wf_chk) ''N'')"
  have a: "map_of (tasks wf_chk) ''A'' = Some ?A"
    by (rule map_option_SomeD [where f = task_id and y = "''A''"]) code_simp
  have q: "map_of (tasks wf_chk) ''Q'' = Some ?Q"
    by (rule map_option_SomeD [where f = task_id and y = "''Q''"]) code_simp
  have n: "map_of (tasks wf_chk) ''N'' = Some ?N"
    by (rule map_option_SomeD [where f = task_id and y = "''N''"]) code_simp
  have a_quota: "\<forall>k. max_spawn_count (constraints ?A) = Some k \<longrightarrow>
                   (\<exists>n. spawn_counts orch_chk (''chk'', ''A'') = Some n \<and> n < k)"
  proof -
    have "max_spawn_count (constraints ?A) = None" by code_simp
    then show ?thesis by simp
  qed
  have n_quota: "\<forall>k. max_spawn_count (constraints ?N) = Some k \<longrightarrow>
                   (\<exists>n. spawn_counts orch_chk (''chk'', ''N'') = Some n \<and> n < k)"
  proof -
    have "max_spawn_count (constraints ?N) = None" by code_simp
    then show ?thesis by simp
  qed
  have cntA: "spawn_counts orch_chk (''chk'', ''A'') = Some 0" by code_simp

  have "map_of (tasks wf_chk) ''Z'' = None"
    by (rule map_option_NoneD [where f = task_id]) code_simp
  from T [THEN conjunct1, rule_format, OF this, of "plain_task ''C''" "[]" PyNone False]
  have 1: "snd (spawn_task ''chk'' ''Z'' (plain_task ''C'') [] PyNone False orch_chk)
     = Inl (RuntimeError
         ''Workflow chk terminated due to constraint violation: Creator Z not in wf chk'')"
    by (simp add: aborted_def abort_message_def)

  have "max_spawn_count (constraints ?Q) = Some 0" by code_simp
  moreover have "spawn_counts orch_chk (''chk'', ''Q'') = Some 0" by code_simp
  ultimately have "map_of (tasks wf_chk) ''Q'' = Some ?Q \<and> max_spawn_count (constraints ?Q) = Some 0 \<and>
      spawn_counts orch_chk (''chk'', ''Q'') = Some 0 \<and> (0 :: int) \<le> 0"
    using q by simp
  from T [THEN conjunct2, THEN conjunct1, rule_format, OF this, of "plain_task ''C''" "[]" PyNone False]
  have 2: "snd (spawn_task ''chk'' ''Q'' (plain_task ''C'') [] PyNone False orch_chk)
     = Inl (RuntimeError
         ''Workflow chk terminated due to constraint violation: Task Q exceeded spawn count'')"
    by (simp add: aborted_def abort_message_def)

  note T3 = T [THEN conjunct2, THEN conjunct2, THEN conjunct1, rule_format]
  have "check_node_against_policy ?N (plain_task ''C'') ''next''
          = Inl (RuntimeError ''Task N cannot spawn any child nodes.'')" by code_simp
  from T3 [OF conjI, OF n n_quota, THEN conjunct1, rule_format, OF this, of "[]" PyNone False]
  have 3: "snd (spawn_task ''chk'' ''N'' (plain_task ''C'') [] PyNone False orch_chk)
     = Inl (RuntimeError
         ''Workflow chk terminated due to constraint violation: Task N cannot spawn any child nodes.'')"
    by (simp add: aborted_def abort_message_def)

  have "check_node_against_policy ?A task_orphan ''next'' = Inr () \<and>
        check_node_against_policy ?A task_orphan ''previous''
          = Inl (RuntimeError ''Task O cannot have any parents.'')" by code_simp
  from T3 [OF conjI, OF a a_quota, THEN conjunct2, THEN conjunct1, rule_format, OF this,
           of "[]" PyNone False]
  have 4: "snd (spawn_task ''chk'' ''A'' task_orphan [] PyNone False orch_chk)
     = Inl (RuntimeError
         ''Workflow chk terminated due to constraint violation: Task O cannot have any parents.'')"
    by (simp add: aborted_def abort_message_def)

  have "check_node_against_policy ?A (plain_task ''B'') ''next'' = Inr ()"
       "check_node_against_policy ?A (plain_task ''B'') ''previous'' = Inr ()"
       "map_option task_id (map_of (tasks wf_chk) (task_id (plain_task ''B''))) = Some ''B''"
    by code_simp+
  then have "check_node_against_policy ?A (plain_task ''B'') ''next'' = Inr () \<and>
        check_node_against_policy ?A (plain_task ''B'') ''previous'' = Inr () \<and>
        map_of (tasks wf_chk) (task_id (plain_task ''B'')) \<noteq> None" by auto
  from T3 [OF conjI, OF a a_quota, THEN conjunct2, THEN conjunct2, rule_format, OF this,
           of "[]" PyNone False]
  have 5: "snd (spawn_task ''chk'' ''A'' (plain_task ''B'') [] PyNone False orch_chk)
     = Inl (RuntimeError
         ''Workflow chk terminated due to constraint violation: Task B already in wf chk'')"
    by (simp add: aborted_def abort_message_def plain_task_def)

  have admC: "spawn_admitted ''chk'' ''A'' (plain_task ''C'') wf_chk ?A orch_chk"
    by (rule spawn_admittedI [OF wf, where n = "''A''"]) code_simp+
  have admS: "spawn_admitted ''chk'' ''A'' task_sink wf_chk ?A orch_chk"
    by (rule spawn_admittedI [OF wf, where n = "''A''"]) code_simp+
  let ?tmC = "map_of (tasks wf_chk @ [(task_id (plain_task ''C''), plain_task ''C'')])"
  let ?tmS = "map_of (tasks wf_chk @ [(task_id task_sink, task_sink)])"
  note T4 = T [THEN conjunct2, THEN conjunct2, THEN conjunct2, rule_format]
  have ok0: "\<forall>x \<in> set []. edge_ok ''A'' (task_id nt) (map_of (tasks wf_chk @ [(task_id nt, nt)])) x"
    for nt by simp
  have okAC: "\<forall>x \<in> set [(''A'', ''C'')]. edge_ok ''A'' (task_id (plain_task ''C'')) ?tmC x"
    by code_simp
  have okcyc: "\<forall>x \<in> set [(''B'', ''C''), (''C'', ''A'')].
                 edge_ok ''A'' (task_id (plain_task ''C'')) ?tmC x"
    by code_simp

  have "''B'' \<notin> {''A'', task_id (plain_task ''C'')} \<and> ''D'' \<notin> {''A'', task_id (plain_task ''C'')}"
    by code_simp
  from T4 [OF conjI, OF admC conjI, OF cntA okAC, THEN conjunct1, rule_format, OF this,
           of "[]" PyNone]
  have 6: "snd (spawn_task ''chk'' ''A'' (plain_task ''C'') [(''A'', ''C''), (''B'', ''D'')] PyNone False
            orch_chk)
     = Inl (RuntimeError
         ''Workflow chk terminated due to constraint violation: The edge (B, D) is not related to the creator or the new task.'')"
    by (simp add: aborted_def abort_message_def)

  have "map_option task_id (?tmC ''Z'') = None" by code_simp
  then have "?tmC ''Z'' = None" by (rule map_option_NoneD)
  moreover have "''C'' \<in> {''A'', task_id (plain_task ''C'')}" by code_simp
  ultimately have "(''C'' \<in> {''A'', task_id (plain_task ''C'')} \<or> ''Z'' \<in> {''A'', task_id (plain_task ''C'')}) \<and>
         (?tmC ''C'' = None \<or> ?tmC ''Z'' = None)" by simp
  from T4 [OF conjI, OF admC conjI, OF cntA okAC, THEN conjunct2, THEN conjunct1, rule_format,
           OF this, of "[]" PyNone]
  have 7: "spawn_task ''chk'' ''A'' (plain_task ''C'') [(''A'', ''C''), (''C'', ''Z'')] PyNone False orch_chk
     = (half_spawned ''chk'' ''A'' (plain_task ''C'') False wf_chk 0 [(''A'', ''C'')] orch_chk,
        Inl KeyError)"
    by simp

  let ?sA = "the (?tmS ''A'')" and ?sS = "the (?tmS ''S'')"
  have "?tmS ''A'' = Some ?sA"
    by (rule map_option_SomeD [where f = task_id and y = "''A''"]) code_simp
  moreover have "?tmS ''S'' = Some ?sS"
    by (rule map_option_SomeD [where f = task_id and y = "''S''"]) code_simp
  ultimately have e8: "(''A'' \<in> {''A'', task_id task_sink} \<or> ''S'' \<in> {''A'', task_id task_sink}) \<and>
         ?tmS ''A'' = Some ?sA \<and> ?tmS ''S'' = Some ?sS" by simp
  have "check_edge_against_policy ?sS (TaskObj ?sA) ''incoming''
          = Inl (RuntimeError ''Task S cannot create incoming edges.'')" by code_simp
  from T4 [OF conjI, OF admS conjI, OF cntA ok0, THEN conjunct2, THEN conjunct2, THEN conjunct1,
           rule_format, OF e8, THEN conjunct1, rule_format, OF this, of "[]" PyNone]
  have 8: "snd (spawn_task ''chk'' ''A'' task_sink [(''A'', ''S'')] PyNone False orch_chk)
     = Inl (RuntimeError
         ''Workflow chk terminated due to constraint violation: Task S cannot create incoming edges.'')"
    by (simp add: aborted_def abort_message_def)

  let ?cE = "the (?tmC ''E'')" and ?cC = "the (?tmC ''C'')"
  have "?tmC ''E'' = Some ?cE"
    by (rule map_option_SomeD [where f = task_id and y = "''E''"]) code_simp
  moreover have "?tmC ''C'' = Some ?cC"
    by (rule map_option_SomeD [where f = task_id and y = "''C''"]) code_simp
  moreover have "''C'' \<in> {''A'', task_id (plain_task ''C'')}" by code_simp
  ultimately have e9: "(''E'' \<in> {''A'', task_id (plain_task ''C'')} \<or> ''C'' \<in> {''A'', task_id (plain_task ''C'')}) \<and>
         ?tmC ''E'' = Some ?cE \<and> ?tmC ''C'' = Some ?cC" by simp
  have "check_edge_against_policy ?cC (TaskObj ?cE) ''incoming'' = Inr () \<and>
        check_edge_against_policy ?cE (TaskName ''C'') ''outgoing''
          = Inl (RuntimeError ''Task E cannot create outgoing edges.'')" by code_simp
  from T4 [OF conjI, OF admC conjI, OF cntA ok0, THEN conjunct2, THEN conjunct2, THEN conjunct1,
           rule_format, OF e9, THEN conjunct2, rule_format, OF this, of "[]" PyNone]
  have 9: "snd (spawn_task ''chk'' ''A'' (plain_task ''C'') [(''E'', ''C'')] PyNone False orch_chk)
     = Inl (RuntimeError
         ''Workflow chk terminated due to constraint violation: Task E cannot create outgoing edges.'')"
    by (simp add: aborted_def abort_message_def)

  let ?X = "spawn_task ''chk'' ''A'' (plain_task ''C'') [(''B'', ''C''), (''C'', ''A'')] PyNone False
              orch_chk"
  let ?mid = "half_spawned ''chk'' ''A'' (plain_task ''C'') False wf_chk 0
                [(''B'', ''C''), (''C'', ''A'')] orch_chk"
  have "\<not> acyclic (set (edges wf_chk @ [(''B'', ''C''), (''C'', ''A'')]))" by code_simp
  from T4 [OF conjI, OF admC conjI, OF cntA okcyc, THEN conjunct2, THEN conjunct2, THEN conjunct2,
           rule_format, OF this, of PyNone False]
  have X: "?X = aborted ''chk'' ''spawn_task caused cycle'' ?mid" .
  have 10: "snd ?X = Inl (RuntimeError
         ''Workflow chk terminated due to constraint violation: spawn_task caused cycle'')"
    unfolding X by (simp add: aborted_def abort_message_def)
  have 11: "ready_queue (fst ?X) ''chk'' = Some []" unfolding X by (simp add: aborted_def)
  have 12: "running_loops (fst ?X) ''chk'' = Some False" unfolding X by (simp add: aborted_def)
  have 13: "map (\<lambda>t. task_status (fst ?X) (''chk'', t)) [''A'', ''B'', ''N'', ''Q'', ''E'', ''C'']
       = [Some Failed, Some Failed, Some Failed, Some Failed, Some Failed, Some Failed]"
    unfolding X by code_simp
  from 1 2 3 4 5 6 7 8 9 10 11 12 13 show ?thesis by (intro conjI)
qed

section \<open>What run_helper enqueues and what a body receives\<close>

lemma enqueue_unblocked_eq:
  "ready_queue s w = Some q \<Longrightarrow>
   enqueue_unblocked w step nu s =
     (s\<lparr> ready_queue := (ready_queue s)(w \<mapsto> q @ nu),
         execution_history :=
           (\<lambda>k. if fst k = w \<and> snd k \<in> fst ` set nu then Some step else execution_history s k) \<rparr>,
      Inr ())"
proof (induction nu arbitrary: s q)
  case Nil
  then have "(ready_queue s)(w \<mapsto> q) = ready_queue s" by (simp add: map_upd_triv)
  then show ?case by simp
next
  case (Cons e nu)
  obtain tid inputs where e: "e = (tid, inputs)" by (cases e)
  let ?s1 = "s\<lparr> ready_queue := (ready_queue s)(w \<mapsto> q @ [(tid, inputs)]),
                execution_history := (execution_history s)((w, tid) \<mapsto> step) \<rparr>"
  have q1: "ready_queue ?s1 w = Some (q @ [(tid, inputs)])" by simp
  have h: "(\<lambda>k. if fst k = w \<and> snd k \<in> fst ` set nu then Some step
                else execution_history ?s1 k)
         = (\<lambda>k. if fst k = w \<and> snd k \<in> fst ` set (e # nu) then Some step
                else execution_history s k)"
    using e by (auto simp: fun_eq_iff)
  have g: "(ready_queue ?s1)(w \<mapsto> (q @ [(tid, inputs)]) @ nu)
         = (ready_queue s)(w \<mapsto> q @ e # nu)"
    using e by simp
  have "enqueue_unblocked w step (e # nu) s = enqueue_unblocked w step nu ?s1"
    using Cons.prems e by simp
  also have "\<dots> = (?s1\<lparr> ready_queue := (ready_queue ?s1)(w \<mapsto> (q @ [(tid, inputs)]) @ nu),
         execution_history :=
           (\<lambda>k. if fst k = w \<and> snd k \<in> fst ` set nu then Some step
                 else execution_history ?s1 k) \<rparr>, Inr ())"
    by (rule Cons.IH [OF q1])
  also have "\<dots> = (s\<lparr> ready_queue := (ready_queue s)(w \<mapsto> q @ e # nu),
         execution_history :=
           (\<lambda>k. if fst k = w \<and> snd k \<in> fst ` set (e # nu) then Some step
                 else execution_history s k) \<rparr>, Inr ())"
    unfolding g h by simp
  finally show ?case .
qed

lemma run_helper_discovers:
  assumes wfl: "workflows s w = Some wfl" and q: "ready_queue s w = Some q"
      and m: "max_list (map (\<lambda>tid. case execution_history s (w, tid) of None \<Rightarrow> 0 | Some k \<Rightarrow> k)
                          (map fst (tasks wfl))) = Inr m"
      and sts: "\<forall>t \<in> fst ` set (tasks wfl). task_status s (w, t) \<noteq> None \<and>
                  (\<forall>p \<in> set (preds_of (edges wfl) t). task_status s (w, p) \<noteq> None)"
  shows "run_helper fuel w s =
     drain_queue fuel w
       (s\<lparr> ready_queue := (ready_queue s)(w \<mapsto> q @ discovered w wfl s),
           execution_history :=
             (\<lambda>k. if fst k = w \<and> snd k \<in> fst ` set (discovered w wfl s) then Some (m + 1)
                   else execution_history s k) \<rparr>)"
proof -
  have "\<exists>nu. discover w (edges wfl) (map fst (tasks wfl)) s [] = Inr nu"
    using sts by (intro discover_total) auto
  then obtain nu where d: "discover w (edges wfl) (map fst (tasks wfl)) s [] = Inr nu" by blast
  from discover_Inr [OF d] have nu: "nu = discovered w wfl s" by (simp add: discovered_def)
  show ?thesis
    using wfl m d enqueue_unblocked_eq [OF q, of "m + 1" nu]
    by (simp add: run_helper_def nu)
qed

lemma spawn_parallel_calls_body:
  assumes "task_status s (w, t) = Some Pending" and "workflows s w = Some wfl"
      and "map_of (tasks wfl) t = Some obj"
  shows "spawn_parallel w t inputs s =
     (case exec (func obj w t inputs) (dispatched w t inputs wfl s) of
        (s1, Inl e) \<Rightarrow> (s1\<lparr> task_status := (task_status s1)((w, t) \<mapsto> Failed) \<rparr>, Inr ())
      | (s1, Inr res) \<Rightarrow>
          (case complete_task w t res s1 of
             (s2, Inl e) \<Rightarrow> (s2\<lparr> task_status := (task_status s2)((w, t) \<mapsto> Failed) \<rparr>, Inr ())
           | (s2, Inr _) \<Rightarrow> (s2, Inr ())))"
  using assms
  by (simp add: spawn_parallel_def task_runner_def dispatched_def Let_def
           split: prod.splits sum.splits)

text \<open>
  Claim C8, amended. The inputs assembled for a task are the recorded outputs of its
  predecessors, in the order of the edges, without the ones that Python takes for false
  (\<^verbatim>\<open>None\<close>, \<^verbatim>\<open>False\<close>, 0, the empty string, the empty list); a predecessor without recorded
  output contributes nothing. When every task and every predecessor of a task has a
  status, \<open>run_helper\<close> appends to the ready queue one entry with these inputs for each task
  that is pending and whose predecessors are all done or failed, in the order of the task
  dict, gives these tasks the next execution step, and goes on to drain the queue. Draining
  dispatches the first entry and goes on with the rest; dispatching an entry of a pending
  task calls the body of the task with the inputs of the entry, in a state that records
  them as the inputs of the task.
\<close>

theorem run_helper_assembles_truthy_outputs:
  "truthy_outputs w ps s = filter truthy (List.map_filter (\<lambda>p. task_outputs s (w, p)) ps)
   \<and> (workflows s w = Some wfl \<and> ready_queue s w = Some q \<and>
      max_list (map (\<lambda>tid. case execution_history s (w, tid) of None \<Rightarrow> 0 | Some k \<Rightarrow> k)
                  (map fst (tasks wfl))) = Inr m \<and>
      (\<forall>t \<in> fst ` set (tasks wfl). task_status s (w, t) \<noteq> None \<and>
          (\<forall>p \<in> set (preds_of (edges wfl) t). task_status s (w, p) \<noteq> None)) \<longrightarrow>
        run_helper fuel w s =
          drain_queue fuel w
            (s\<lparr> ready_queue := (ready_queue s)
                  (w \<mapsto> q @ map (\<lambda>t. (t, PyList (truthy_outputs w (preds_of (edges wfl) t) s)))
                              (filter (ready w (edges wfl) s) (map fst (tasks wfl)))),
                execution_history :=
                  (\<lambda>k. if fst k = w \<and> snd k \<in> set (filter (ready w (edges wfl) s) (map fst (tasks wfl)))
                        then Some (m + 1) else execution_history s k) \<rparr>))
   \<and> (ready_queue s w = Some ((t, inputs) # q) \<longrightarrow>
        drain_queue (Suc fuel) w s =
          (case spawn_parallel w t inputs (s\<lparr> ready_queue := (ready_queue s)(w \<mapsto> q) \<rparr>) of
             (s1, Inl e) \<Rightarrow> Some (s1, Inl e)
           | (s1, Inr _) \<Rightarrow>
               (case visualize w s1 of
                  (s2, Inl e) \<Rightarrow> Some (s2, Inl e)
                | (s2, Inr _) \<Rightarrow> drain_queue fuel w s2)))
   \<and> (task_status s (w, t) = Some Pending \<and> workflows s w = Some wfl \<and>
      map_of (tasks wfl) t = Some obj \<longrightarrow>
        task_inputs (dispatched w t inputs wfl s) (w, t) = Some inputs \<and>
        spawn_parallel w t inputs s =
          (case exec (func obj w t inputs) (dispatched w t inputs wfl s) of
             (s1, Inl e) \<Rightarrow> (s1\<lparr> task_status := (task_status s1)((w, t) \<mapsto> Failed) \<rparr>, Inr ())
           | (s1, Inr res) \<Rightarrow>
               (case complete_task w t res s1 of
                  (s2, Inl e) \<Rightarrow>
                    (s2\<lparr> task_status := (task_status s2)((w, t) \<mapsto> Failed) \<rparr>, Inr ())
                | (s2, Inr _) \<Rightarrow> (s2, Inr ()))))"
  (is "?A \<and> ?B \<and> ?C \<and> ?D")
proof (intro conjI)
  show ?A by (rule truthy_outputs_filter)
next
  show ?B
  proof
    assume a: "workflows s w = Some wfl \<and> ready_queue s w = Some q \<and>
      max_list (map (\<lambda>tid. case execution_history s (w, tid) of None \<Rightarrow> 0 | Some k \<Rightarrow> k)
                  (map fst (tasks wfl))) = Inr m \<and>
      (\<forall>t \<in> fst ` set (tasks wfl). task_status s (w, t) \<noteq> None \<and>
          (\<forall>p \<in> set (preds_of (edges wfl) t). task_status s (w, p) \<noteq> None))"
    have img: "fst ` set (discovered w wfl s)
                 = set (filter (ready w (edges wfl) s) (map fst (tasks wfl)))"
      by (force simp: discovered_def)
    from a have "run_helper fuel w s =
     drain_queue fuel w
       (s\<lparr> ready_queue := (ready_queue s)(w \<mapsto> q @ discovered w wfl s),
           execution_history :=
             (\<lambda>k. if fst k = w \<and> snd k \<in> fst ` set (discovered w wfl s) then Some (m + 1)
                   else execution_history s k) \<rparr>)"
      by (intro run_helper_discovers) simp_all
    then show "run_helper fuel w s =
          drain_queue fuel w
            (s\<lparr> ready_queue := (ready_queue s)
                  (w \<mapsto> q @ map (\<lambda>t. (t, PyList (truthy_outputs w (preds_of (edges wfl) t) s)))
                              (filter (ready w (edges wfl) s) (map fst (tasks wfl)))),
                execution_history :=
                  (\<lambda>k. if fst k = w \<and> snd k \<in> set (filter (ready w (edges wfl) s) (map fst (tasks wfl)))
                        then Some (m + 1) else execution_history s k) \<rparr>)"
      unfolding img unfolding discovered_def .
  qed
next
  show ?C by (subst drain_queue_unfold) simp
next
  show ?D
  proof
    assume a: "task_status s (w, t) = Some Pending \<and> workflows s w = Some wfl \<and>
      map_of (tasks wfl) t = Some obj"
    then have "spawn_parallel w t inputs s =
          (case exec (func obj w t inputs) (dispatched w t inputs wfl s) of
             (s1, Inl e) \<Rightarrow> (s1\<lparr> task_status := (task_status s1)((w, t) \<mapsto> Failed) \<rparr>, Inr ())
           | (s1, Inr res) \<Rightarrow>
               (case complete_task w t res s1 of
                  (s2, Inl e) \<Rightarrow>
                    (s2\<lparr> task_status := (task_status s2)((w, t) \<mapsto> Failed) \<rparr>, Inr ())
                | (s2, Inr _) \<Rightarrow> (s2, Inr ())))"
      by (intro spawn_parallel_calls_body) simp_all
    moreover have "task_inputs (dispatched w t inputs wfl s) (w, t) = Some inputs"
      by (simp add: dispatched_def Let_def)
    ultimately show "task_inputs (dispatched w t inputs wfl s) (w, t) = Some inputs \<and>
        spawn_parallel w t inputs s =
          (case exec (func obj w t inputs) (dispatched w t inputs wfl s) of
             (s1, Inl e) \<Rightarrow> (s1\<lparr> task_status := (task_status s1)((w, t) \<mapsto> Failed) \<rparr>, Inr ())
           | (s1, Inr res) \<Rightarrow>
               (case complete_task w t res s1 of
                  (s2, Inl e) \<Rightarrow>
                    (s2\<lparr> task_status := (task_status s2)((w, t) \<mapsto> Failed) \<rparr>, Inr ())
                | (s2, Inr _) \<Rightarrow> (s2, Inr ())))" by simp
  qed
qed

theorem run_helper_assembles_truthy_outputs_witness:
  "preds_of (edges (the (workflows orch_mix_ready ''mix''))) ''C'' = [''P1'', ''P2'', ''P3'', ''P4'']
   \<and> map (\<lambda>p. task_status orch_mix_ready (''mix'', p)) [''P1'', ''P2'', ''P3'', ''P4'']
       = [Some Done, Some Failed, Some Done, Some Done]
   \<and> map (\<lambda>p. task_outputs orch_mix_ready (''mix'', p)) [''P1'', ''P2'', ''P3'', ''P4'']
       = [Some (PyInt 7), None, Some (PyInt 0), Some (PyStr ''x'')]
   \<and> truthy_outputs ''mix'' [''P1'', ''P2'', ''P3'', ''P4''] orch_mix_ready = [PyInt 7, PyStr ''x'']
   \<and> (\<exists>h. run_helper 5 ''mix'' orch_mix_ready =
            drain_queue 5 ''mix''
              (orch_mix_ready\<lparr> ready_queue := (ready_queue orch_mix_ready)
                                  (''mix'' \<mapsto> [] @ [(''C'', PyList [PyInt 7, PyStr ''x''])]),
                               execution_history := h \<rparr>))
   \<and> drain_queue (Suc 4) ''mix''
        (orch_mix_ready\<lparr> ready_queue := (ready_queue orch_mix_ready)
                            (''mix'' \<mapsto> [(''C'', PyList [PyInt 7, PyStr ''x''])]) \<rparr>)
       = (case spawn_parallel ''mix'' ''C'' (PyList [PyInt 7, PyStr ''x''])
                 (orch_mix_ready\<lparr> ready_queue := (ready_queue orch_mix_ready)(''mix'' \<mapsto> []) \<rparr>) of
            (s1, Inl e) \<Rightarrow> Some (s1, Inl e)
          | (s1, Inr _) \<Rightarrow>
              (case visualize ''mix'' s1 of
                 (s2, Inl e) \<Rightarrow> Some (s2, Inl e)
               | (s2, Inr _) \<Rightarrow> drain_queue 4 ''mix'' s2))
   \<and> task_inputs (dispatched ''mix'' ''C'' (PyList [PyInt 7, PyStr ''x''])
                    (the (workflows orch_mix_ready ''mix'')) orch_mix_ready) (''mix'', ''C'')
       = Some (PyList [PyInt 7, PyStr ''x''])
   \<and> task_outputs (fst (spawn_parallel ''mix'' ''C'' (PyList [PyInt 7, PyStr ''x'']) orch_mix_ready))
        (''mix'', ''C'') = Some (PyList [PyInt 7, PyStr ''x''])
   \<and> result_of run_mix = Some (Inr ())
   \<and> task_inputs (state_of run_mix) (''mix'', ''C'') = Some (PyList [PyInt 7, PyStr ''x''])
   \<and> task_status (state_of run_mix) (''mix'', ''C'') = Some Done"
proof -
  let ?s = orch_mix_ready
  let ?wfl = "the (workflows ?s ''mix'')"
  let ?obj = "the (map_of (tasks ?wfl) ''C'')"
  let ?inp = "PyList [PyInt 7, PyStr ''x'']"
  let ?ps = "[''P1'', ''P2'', ''P3'', ''P4'']"
  note T = run_helper_assembles_truthy_outputs
  have 1: "preds_of (edges ?wfl) ''C'' = ?ps" by code_simp
  have 2: "map (\<lambda>p. task_status ?s (''mix'', p)) ?ps = [Some Done, Some Failed, Some Done, Some Done]"
    by code_simp
  have 3: "map (\<lambda>p. task_outputs ?s (''mix'', p)) ?ps
             = [Some (PyInt 7), None, Some (PyInt 0), Some (PyStr ''x'')]"
    by code_simp
  have "filter truthy (List.map_filter (\<lambda>p. task_outputs ?s (''mix'', p)) ?ps) = [PyInt 7, PyStr ''x'']"
    by code_simp
  with T [where w = "''mix''" and ps = ?ps and s = ?s, THEN conjunct1]
  have 4: "truthy_outputs ''mix'' ?ps ?s = [PyInt 7, PyStr ''x'']" by simp
  have wfl: "workflows ?s ''mix'' = Some ?wfl"
    by (rule map_option_SomeD [where f = workflow_id and y = "''mix''"]) code_simp
  have q: "ready_queue ?s ''mix'' = Some []" by code_simp
  have m: "max_list (map (\<lambda>tid. case execution_history ?s (''mix'', tid) of None \<Rightarrow> 0 | Some k \<Rightarrow> k)
                  (map fst (tasks ?wfl))) = Inr 0" by code_simp
  have "\<forall>t \<in> set (map fst (tasks ?wfl)). task_status ?s (''mix'', t) \<noteq> None \<and>
          (\<forall>p \<in> set (preds_of (edges ?wfl) t). task_status ?s (''mix'', p) \<noteq> None)"
    by code_simp
  then have sts: "\<forall>t \<in> fst ` set (tasks ?wfl). task_status ?s (''mix'', t) \<noteq> None \<and>
          (\<forall>p \<in> set (preds_of (edges ?wfl) t). task_status ?s (''mix'', p) \<noteq> None)"
    by simp
  have nu: "map (\<lambda>t. (t, PyList (truthy_outputs ''mix'' (preds_of (edges ?wfl) t) ?s)))
              (filter (ready ''mix'' (edges ?wfl) ?s) (map fst (tasks ?wfl)))
            = [(''C'', ?inp)]"
    by code_simp
  from T [where w = "''mix''" and s = ?s and wfl = ?wfl and q = "[]" and m = 0 and fuel = 5,
          THEN conjunct2, THEN conjunct1, rule_format, OF conjI, OF wfl conjI, OF q conjI, OF m sts]
  have 5: "\<exists>h. run_helper 5 ''mix'' ?s =
            drain_queue 5 ''mix''
              (?s\<lparr> ready_queue := (ready_queue ?s)(''mix'' \<mapsto> [] @ [(''C'', ?inp)]),
                   execution_history := h \<rparr>)"
    unfolding nu by blast
  let ?sq = "?s\<lparr> ready_queue := (ready_queue ?s)(''mix'' \<mapsto> [(''C'', ?inp)]) \<rparr>"
  have "ready_queue ?sq ''mix'' = Some ((''C'', ?inp) # [])" by simp
  from T [where w = "''mix''" and s = ?sq and t = "''C''" and inputs = ?inp and q = "[]" and fuel = 4,
          THEN conjunct2, THEN conjunct2, THEN conjunct1, rule_format, OF this]
  have 6: "drain_queue (Suc 4) ''mix'' ?sq
       = (case spawn_parallel ''mix'' ''C'' ?inp
                 (?s\<lparr> ready_queue := (ready_queue ?s)(''mix'' \<mapsto> []) \<rparr>) of
            (s1, Inl e) \<Rightarrow> Some (s1, Inl e)
          | (s1, Inr _) \<Rightarrow>
              (case visualize ''mix'' s1 of
                 (s2, Inl e) \<Rightarrow> Some (s2, Inl e)
               | (s2, Inr _) \<Rightarrow> drain_queue 4 ''mix'' s2))"
    by simp
  have pend: "task_status ?s (''mix'', ''C'') = Some Pending" by code_simp
  have obj: "map_of (tasks ?wfl) ''C'' = Some ?obj"
    by (rule map_option_SomeD [where f = task_id and y = "''C''"]) code_simp
  from T [where w = "''mix''" and s = ?s and t = "''C''" and inputs = ?inp and wfl = ?wfl
            and obj = ?obj,
          THEN conjunct2, THEN conjunct2, THEN conjunct2, rule_format, OF conjI, OF pend conjI,
          OF wfl obj]
  have 7: "task_inputs (dispatched ''mix'' ''C'' ?inp ?wfl ?s) (''mix'', ''C'') = Some ?inp"
    by simp
  have 8: "task_outputs (fst (spawn_parallel ''mix'' ''C'' ?inp ?s)) (''mix'', ''C'') = Some ?inp"
    by code_simp
  have 9: "result_of run_mix = Some (Inr ())" by code_simp
  have 10: "task_inputs (state_of run_mix) (''mix'', ''C'') = Some ?inp" by code_simp
  have 11: "task_status (state_of run_mix) (''mix'', ''C'') = Some Done" by code_simp
  from 1 2 3 4 5 6 7 8 9 10 11 show ?thesis by (intro conjI)
qed

end
